theory Spec2Isabelle
  imports Complex_Main
begin

section \<open>Strings, as the pipeline uses them\<close>

text \<open>
  A document is a Python \<open>str\<close>; here a \<open>string\<close>, one \<open>char\<close> per character of the
  document (code points below 256). \<open>isspace\<close> lists the characters \<open>str.strip()\<close>
  removes in that range.
\<close>

definition isspace :: "char \<Rightarrow> bool" where
  "isspace c =
     (let n = (of_char c :: nat)
      in (9 \<le> n \<and> n \<le> 13) \<or> (28 \<le> n \<and> n \<le> 32) \<or> n = 133 \<or> n = 160)"

definition strip :: "string \<Rightarrow> string" where
  "strip s = rev (dropWhile isspace (rev (dropWhile isspace s)))"

text \<open>
  \<open>chunk.find(sentence)\<close>: the lowest index at which \<open>sub\<close> occurs, \<open>None\<close> for
  Python's \<open>-1\<close>. The empty string is found at index 0 of every string.
\<close>

fun find_str :: "string \<Rightarrow> string \<Rightarrow> nat option" where
  "find_str [] sub = (if sub = [] then Some 0 else None)"
| "find_str (c # cs) sub =
     (if take (length sub) (c # cs) = sub then Some 0
      else map_option Suc (find_str cs sub))"

section \<open>The language model's replies\<close>

text \<open>
  Every call of \<open>chat\<close> is an external request. The replies are given in advance as
  four tapes, one per call site, and a record of counters says how many replies of
  each tape have been read so far. A reply is the decoded JSON object of
  \<open>models.py\<close>, each key of which may be absent; the reply of the extractor is its
  text, or \<open>None\<close> when the response has no content.
\<close>

datatype error = KeyError | NameError | RuntimeError

record verification =
  v_is_valid :: "bool option"

record correction =
  corrected_sentence :: "string option"
  confidence :: "real option"
  explanation :: "string option"

record qa_verdict =
  is_valid :: "bool option"
  maintains_meaning :: "bool option"
  technical_accuracy :: "bool option"
  concerns :: "string list option"

record llm =
  extract_reply :: "nat \<Rightarrow> string option"
  verify_reply :: "nat \<Rightarrow> verification"
  propose_reply :: "nat \<Rightarrow> correction"
  qa_reply :: "nat \<Rightarrow> qa_verdict"

record calls =
  n_extract :: nat
  n_verify :: nat
  n_propose :: nat
  n_qa :: nat

definition no_calls :: calls where
  "no_calls = \<lparr>n_extract = 0, n_verify = 0, n_propose = 0, n_qa = 0\<rparr>"

section \<open>preprocessing.py\<close>

text \<open>
  \<open>extract_sentence_from_queue(text, max_chunk)\<close>, with the reply of its \<open>chat\<close>
  call as third argument. A failing call or a response without content ends in
  \<open>RuntimeError\<close>.
\<close>

definition extract_sentence_from_queue ::
    "string \<Rightarrow> nat \<Rightarrow> string option \<Rightarrow> error + (string \<times> nat)" where
  "extract_sentence_from_queue text max_chunk response =
     (let chunk = take max_chunk text
      in case response of
           None \<Rightarrow> Inl RuntimeError
         | Some content \<Rightarrow>
             (let sentence = strip content
              in case find_str chunk sentence of
                   None \<Rightarrow> Inr (sentence, length chunk)
                 | Some idx \<Rightarrow> Inr (sentence, idx + length sentence)))"

definition calculate_sentence_length :: "string \<Rightarrow> nat" where
  "calculate_sentence_length sentence = length sentence"

text \<open>
  The segmentation loop, the same in \<open>process_sentence\<close> (main.py) and in
  \<open>preprocessing_main\<close>. \<open>verification["is_valid"]\<close> raises \<open>KeyError\<close> on a reply
  without the key; \<open>sentence\<close> and \<open>end_index\<close> are unbound before the first pass.
\<close>

record seg_state =
  seg_verification :: verification
  seg_attempt :: nat
  initial_sentence_length_upper_bound :: nat
  seg_sentence :: "string option"
  seg_end_index :: "nat option"

definition max_attempts :: nat where
  "max_attempts = 5"

definition seg_init :: seg_state where
  "seg_init = \<lparr>seg_verification = \<lparr>v_is_valid = Some False\<rparr>, seg_attempt = 0,
                initial_sentence_length_upper_bound = 500,
                seg_sentence = None, seg_end_index = None\<rparr>"

function segmentation_loop ::
    "llm \<Rightarrow> string \<Rightarrow> seg_state \<Rightarrow> calls \<Rightarrow> error + (seg_state \<times> calls)" where
  "segmentation_loop L document s w =
     (case v_is_valid (seg_verification s) of
        None \<Rightarrow> Inl KeyError
      | Some ok \<Rightarrow>
          if \<not> ok \<and> seg_attempt s < max_attempts then
            (case extract_sentence_from_queue document
                    (initial_sentence_length_upper_bound s) (extract_reply L (n_extract w)) of
               Inl e \<Rightarrow> Inl e
             | Inr (sentence, end_index) \<Rightarrow>
                 segmentation_loop L document
                   (s\<lparr>seg_sentence := Some sentence, seg_end_index := Some end_index,
                      seg_verification := verify_reply L (n_verify w),
                      seg_attempt := seg_attempt s + 1,
                      initial_sentence_length_upper_bound :=
                        initial_sentence_length_upper_bound s + 200\<rparr>)
                   (w\<lparr>n_extract := n_extract w + 1, n_verify := n_verify w + 1\<rparr>))
          else Inr (s, w))"
  by pat_completeness auto
termination
  by (relation "measure (\<lambda>(L, document, s, w). max_attempts - seg_attempt s)") auto

text \<open>
  Lines 15 to 34 of main.py: run the loop from its initial state and hand on the last
  sentence and end index.
\<close>

definition segment :: "llm \<Rightarrow> string \<Rightarrow> calls \<Rightarrow> error + (string \<times> nat \<times> seg_state \<times> calls)" where
  "segment L document w =
     (case segmentation_loop L document seg_init w of
        Inl e \<Rightarrow> Inl e
      | Inr (s, w') \<Rightarrow>
          (case v_is_valid (seg_verification s) of
             None \<Rightarrow> Inl KeyError
           | Some ok \<Rightarrow>
               (case (seg_sentence s, seg_end_index s) of
                  (Some sentence, Some end_index) \<Rightarrow> Inr (sentence, end_index, s, w')
                | _ \<Rightarrow> Inl NameError)))"

section \<open>main.py: the correction loop of process_sentence\<close>

text \<open>
  The entry built for a sentence: four fields in \<open>grammar_correction_main\<close>, and
  \<open>length\<close> and \<open>explanation\<close> besides in \<open>process_sentence\<close>.
\<close>

record gc_result_entry =
  original :: string
  final :: string
  has_changes :: bool
  qa_concerns :: "string list"

record result_entry = gc_result_entry +
  length_chars :: nat
  explanation_text :: string

text \<open>
  Lines 37 to 70 of main.py: the local variables of the correction loop and the loop.
  A proposal without \<open>confidence\<close>, or with one of at most 0.5, spends an attempt; a
  confident one without \<open>corrected_sentence\<close> raises \<open>KeyError\<close> when it is handed
  to the validator.
\<close>

record corr_state =
  QA_passed :: bool
  correction_attempt :: nat
  correction :: "correction option"
  qa_result :: "qa_verdict option"

definition max_correction_attempts :: nat where
  "max_correction_attempts = 8"

definition corr_init :: corr_state where
  "corr_init = \<lparr>QA_passed = False, correction_attempt = 0, correction = None, qa_result = None\<rparr>"

function correction_loop ::
    "llm \<Rightarrow> string \<Rightarrow> corr_state \<Rightarrow> calls \<Rightarrow> error + (corr_state \<times> calls)" where
  "correction_loop L sentence s w =
     (if \<not> QA_passed s \<and> correction_attempt s < max_correction_attempts then
        (let c = propose_reply L (n_propose w);
             w1 = w\<lparr>n_propose := n_propose w + 1\<rparr>;
             s1 = s\<lparr>correction := Some c\<rparr>
         in case confidence c of
              None \<Rightarrow>
                correction_loop L sentence
                  (s1\<lparr>correction_attempt := correction_attempt s1 + 1\<rparr>) w1
            | Some conf \<Rightarrow>
                if conf \<le> 0.5 then
                  correction_loop L sentence
                    (s1\<lparr>correction_attempt := correction_attempt s1 + 1\<rparr>) w1
                else
                  (case corrected_sentence c of
                     None \<Rightarrow> Inl KeyError
                   | Some cs \<Rightarrow>
                       (let q = qa_reply L (n_qa w1);
                            w2 = w1\<lparr>n_qa := n_qa w1 + 1\<rparr>;
                            s2 = s1\<lparr>qa_result := Some q\<rparr>
                        in if is_valid q = None \<or> maintains_meaning q = None
                              \<or> technical_accuracy q = None then
                             correction_loop L sentence
                               (s2\<lparr>correction_attempt := correction_attempt s2 + 1\<rparr>) w2
                           else if is_valid q = Some True \<and> maintains_meaning q = Some True
                                   \<and> technical_accuracy q = Some True then
                             Inr (s2\<lparr>QA_passed := True\<rparr>, w2)
                           else
                             correction_loop L sentence
                               (s2\<lparr>correction_attempt := correction_attempt s2 + 1\<rparr>) w2)))
      else Inr (s, w))"
  by pat_completeness auto
termination
  by (relation "measure (\<lambda>(L, sentence, s, w). max_correction_attempts - correction_attempt s)")
     auto

text \<open>Lines 72 to 81: the entry, from the state the loop ended in.\<close>

definition prepare_result :: "string \<Rightarrow> nat \<Rightarrow> corr_state \<Rightarrow> error + result_entry" where
  "prepare_result sentence lengths s =
     (if QA_passed s then
        (case correction s of
           None \<Rightarrow> Inl NameError
         | Some c \<Rightarrow>
             (case corrected_sentence c of
                None \<Rightarrow> Inl KeyError
              | Some cs \<Rightarrow>
                  (case qa_result s of
                     None \<Rightarrow> Inl NameError
                   | Some q \<Rightarrow>
                       Inr \<lparr>original = sentence, final = cs, has_changes = (sentence \<noteq> cs),
                            qa_concerns = (case concerns q of None \<Rightarrow> [] | Some cc \<Rightarrow> cc),
                            length_chars = lengths,
                            explanation_text =
                              (case explanation c of None \<Rightarrow> '''' | Some x \<Rightarrow> x)\<rparr>)))
      else
        Inr \<lparr>original = sentence, final = sentence, has_changes = False,
             qa_concerns = [''Failed to find valid correction''],
             length_chars = lengths, explanation_text = ''''\<rparr>)"

text \<open>
  Lines 33 to 81, the part of \<open>process_sentence\<close> after segmentation, and the whole
  function: the entry, the document without the consumed prefix, and the end index.
\<close>

definition correct_sentence ::
    "llm \<Rightarrow> string \<Rightarrow> calls \<Rightarrow> error + (result_entry \<times> calls)" where
  "correct_sentence L sentence w =
     (let lengths = calculate_sentence_length sentence
      in case correction_loop L sentence corr_init w of
           Inl e \<Rightarrow> Inl e
         | Inr (s, w') \<Rightarrow>
             (case prepare_result sentence lengths s of
                Inl e \<Rightarrow> Inl e
              | Inr result \<Rightarrow> Inr (result, w')))"

definition process_sentence ::
    "llm \<Rightarrow> string \<Rightarrow> calls \<Rightarrow> error + (result_entry \<times> string \<times> nat \<times> calls)" where
  "process_sentence L document w =
     (case segment L document w of
        Inl e \<Rightarrow> Inl e
      | Inr (sentence, end_index, sg, w1) \<Rightarrow>
          (case correct_sentence L sentence w1 of
             Inl e \<Rightarrow> Inl e
           | Inr (result, w2) \<Rightarrow> Inr (result, drop end_index document, end_index, w2)))"

text \<open>
  The \<open>while document.strip()\<close> loop of \<open>main\<close>, with its counters and the entries
  written so far. Nothing in the loop bounds the number of its passes.
\<close>

partial_function (option) main_loop ::
    "llm \<Rightarrow> string \<Rightarrow> nat \<Rightarrow> nat \<Rightarrow> result_entry list \<Rightarrow> calls
       \<Rightarrow> (error + (result_entry list \<times> nat \<times> nat \<times> string \<times> calls)) option" where
  "main_loop L document sentence_count chars_processed results w =
     (if strip document \<noteq> [] then
        (case process_sentence L document w of
           Inl e \<Rightarrow> Some (Inl e)
         | Inr (result, document', chars_consumed, w') \<Rightarrow>
             main_loop L document' (sentence_count + 1) (chars_processed + chars_consumed)
               (results @ [result]) w')
      else Some (Inr (results, sentence_count, chars_processed, document, w)))"

text \<open>
  \<open>main()\<close>: the loop of lines 115 to 121 started on the document read from the
  file, the entries written to the progress file collected in a list. The value is
  \<open>None\<close> when the loop never ends.
\<close>

declare main_loop.simps [code]

definition main :: "llm \<Rightarrow> string
    \<Rightarrow> (error + (result_entry list \<times> nat \<times> nat \<times> string \<times> calls)) option" where
  "main L document = main_loop L document 0 0 [] no_calls"

section \<open>preprocessing.py: preprocessing_main\<close>

text \<open>
  The driver of lines 127 to 171, which stops as well when fewer than 3 characters are
  left after stripping. Besides the results it hands back the document that is left
  and the counters.
\<close>

partial_function (option) preprocessing_loop ::
    "llm \<Rightarrow> string \<Rightarrow> (string \<times> nat) list \<Rightarrow> calls
       \<Rightarrow> (error + ((string \<times> nat) list \<times> string \<times> calls)) option" where
  "preprocessing_loop L document results w =
     (if strip document \<noteq> [] then
        (case segment L document w of
           Inl e \<Rightarrow> Some (Inl e)
         | Inr (sentence, end_index, sg, w') \<Rightarrow>
             (let lengths = calculate_sentence_length sentence;
                  results' = results @ [(sentence, lengths)];
                  document' = drop end_index document
              in if length (strip document') < 3 then Some (Inr (results', document', w'))
                 else preprocessing_loop L document' results' w'))
      else Some (Inr (results, document, w)))"

declare preprocessing_loop.simps [code]

definition preprocessing_main ::
    "llm \<Rightarrow> string \<Rightarrow> (error + ((string \<times> nat) list \<times> string \<times> calls)) option" where
  "preprocessing_main L document = preprocessing_loop L document [] no_calls"

section \<open>correct.py: grammar_correction_main\<close>

text \<open>
  The local variables of one pass of the \<open>for\<close> loop. \<open>correction\<close> and
  \<open>qa_result\<close> are unbound until first assigned and keep their value from one
  sentence to the next.
\<close>

record gc_state =
  gc_QA_passed :: bool
  gc_attempt :: nat
  gc_correction :: "correction option"
  gc_qa_result :: "qa_verdict option"
  num_attempts :: nat
  qa_yielded_result :: bool

text \<open>
  The inner loop never changes \<open>num_attempts\<close>, so nothing bounds the number of its
  passes. The model gives it fuel, one unit per call of the validator: a run either
  finishes or is cut off with the state it has reached.
\<close>

datatype 'a run = Finished 'a | OutOfFuel gc_state calls

definition max_qa_attempts :: nat where
  "max_qa_attempts = 5"

fun qa_loop ::
    "nat \<Rightarrow> llm \<Rightarrow> string \<Rightarrow> gc_state \<Rightarrow> calls \<Rightarrow> error + (gc_state \<times> calls) run" where
  "qa_loop 0 L original_sentence s w =
     (if num_attempts s < max_qa_attempts then Inr (OutOfFuel s w)
      else Inr (Finished (s, w)))"
| "qa_loop (Suc fuel) L original_sentence s w =
     (if num_attempts s < max_qa_attempts then
        (case gc_correction s of
           None \<Rightarrow> Inl NameError
         | Some c \<Rightarrow>
             (case corrected_sentence c of
                None \<Rightarrow> Inl KeyError
              | Some cs \<Rightarrow>
                  (let q = qa_reply L (n_qa w);
                       w1 = w\<lparr>n_qa := n_qa w + 1\<rparr>;
                       s1 = s\<lparr>gc_qa_result := Some q\<rparr>
                   in if is_valid q \<noteq> None \<and> maintains_meaning q \<noteq> None
                         \<and> technical_accuracy q \<noteq> None then
                        (if is_valid q = Some True \<and> maintains_meaning q = Some True
                            \<and> technical_accuracy q = Some True then
                           Inr (Finished (s1\<lparr>gc_QA_passed := True\<rparr>, w1))
                         else
                           (let s2 = s1\<lparr>gc_attempt := gc_attempt s1 + 1\<rparr>;
                                s3 = s2\<lparr>qa_yielded_result := True\<rparr>
                            in if qa_yielded_result s3 then Inr (Finished (s3, w1))
                               else qa_loop fuel L original_sentence s3 w1))
                      else if qa_yielded_result s1 then Inr (Finished (s1, w1))
                      else qa_loop fuel L original_sentence s1 w1)))
      else Inr (Finished (s, w)))"

text \<open>
  A finished run of the inner loop has either passed QA or spent one outer attempt;
  the outer loop's termination rests on it.
\<close>

lemma qa_loop_Finished:
  "qa_loop fuel L original_sentence s w = Inr (Finished (s', w')) \<Longrightarrow>
     num_attempts s < max_qa_attempts \<Longrightarrow> \<not> qa_yielded_result s \<Longrightarrow>
     gc_QA_passed s' \<or> gc_attempt s' = gc_attempt s + 1"
proof (induction fuel arbitrary: s w)
  case 0
  then show ?case by simp
next
  case (Suc fuel)
  from Suc.prems show ?case
    by (auto simp: Let_def split: option.splits if_splits dest!: Suc.IH)
qed

function grammar_correction_loop ::
    "nat \<Rightarrow> llm \<Rightarrow> string \<Rightarrow> gc_state \<Rightarrow> calls \<Rightarrow> error + (gc_state \<times> calls) run" where
  "grammar_correction_loop fuel L original_sentence s w =
     (if \<not> gc_QA_passed s \<and> gc_attempt s < max_attempts then
        (let c = propose_reply L (n_propose w);
             w1 = w\<lparr>n_propose := n_propose w + 1\<rparr>;
             s1 = s\<lparr>gc_correction := Some c\<rparr>
         in case confidence c of
              None \<Rightarrow> Inl KeyError
            | Some conf \<Rightarrow>
                if conf \<le> 0.5 then
                  grammar_correction_loop fuel L original_sentence
                    (s1\<lparr>gc_attempt := gc_attempt s1 + 1\<rparr>) w1
                else
                  (case qa_loop fuel L original_sentence
                          (s1\<lparr>num_attempts := 0, qa_yielded_result := False\<rparr>) w1 of
                     Inl e \<Rightarrow> Inl e
                   | Inr (OutOfFuel s2 w2) \<Rightarrow> Inr (OutOfFuel s2 w2)
                   | Inr (Finished (s2, w2)) \<Rightarrow>
                       grammar_correction_loop fuel L original_sentence s2 w2))
      else Inr (Finished (s, w)))"
  by pat_completeness auto
termination
proof (relation "measure (\<lambda>(fuel, L, original_sentence, s, w).
                   if gc_QA_passed s then 0 else Suc max_attempts - gc_attempt s)")
  show "wf (measure (\<lambda>(fuel, L, original_sentence, s, w).
                   if gc_QA_passed s then 0 else Suc max_attempts - gc_attempt s))"
    by simp
next
  fix fuel :: nat and L :: llm and original_sentence :: string and s :: gc_state and w :: calls
    and x xa xb x2
  assume "\<not> gc_QA_passed s \<and> gc_attempt s < max_attempts"
    "x = propose_reply L (n_propose w)" "xa = w\<lparr>n_propose := n_propose w + 1\<rparr>"
    "xb = s\<lparr>gc_correction := Some x\<rparr>" "confidence x = Some x2" "x2 \<le> 5 / 10"
  then show "((fuel, L, original_sentence, xb\<lparr>gc_attempt := gc_attempt xb + 1\<rparr>, xa),
              (fuel, L, original_sentence, s, w))
        \<in> measure (\<lambda>(fuel, L, original_sentence, s, w).
                   if gc_QA_passed s then 0 else Suc max_attempts - gc_attempt s)"
    by auto
next
  fix fuel :: nat and L :: llm and original_sentence :: string and s :: gc_state and w :: calls
    and x xa xb x2 x2a x1 xc y
  assume a: "\<not> gc_QA_passed s \<and> gc_attempt s < max_attempts"
    "x = propose_reply L (n_propose w)" "xa = w\<lparr>n_propose := n_propose w + 1\<rparr>"
    "xb = s\<lparr>gc_correction := Some x\<rparr>" "confidence x = Some x2" "\<not> x2 \<le> 5 / 10"
    "qa_loop fuel L original_sentence
       (xb\<lparr>num_attempts := 0, qa_yielded_result := False\<rparr>) xa = Inr x2a"
    "x2a = Finished x1" "(xc, y) = x1"
  then have "qa_loop fuel L original_sentence
               (xb\<lparr>num_attempts := 0, qa_yielded_result := False\<rparr>) xa
               = Inr (Finished (xc, y))" by simp
  from qa_loop_Finished [OF this] a
  show "((fuel, L, original_sentence, xc, y), (fuel, L, original_sentence, s, w))
        \<in> measure (\<lambda>(fuel, L, original_sentence, s, w).
                   if gc_QA_passed s then 0 else Suc max_attempts - gc_attempt s)"
    by (auto simp: max_qa_attempts_def)
qed

text \<open>Lines 137 to 144: the entry stored for the sentence.\<close>

definition store_result :: "string \<Rightarrow> gc_state \<Rightarrow> error + gc_result_entry" where
  "store_result original_sentence s =
     (case gc_correction s of
        None \<Rightarrow> Inl NameError
      | Some c \<Rightarrow>
          (case corrected_sentence c of
             None \<Rightarrow> Inl KeyError
           | Some cs \<Rightarrow>
               (let has_changes = (original_sentence \<noteq> cs)
                in if gc_QA_passed s then
                     (case gc_qa_result s of
                        None \<Rightarrow> Inl NameError
                      | Some q \<Rightarrow>
                          Inr \<lparr>original = original_sentence, final = cs,
                               has_changes = (has_changes \<and> gc_QA_passed s),
                               qa_concerns = (case concerns q of None \<Rightarrow> [] | Some cc \<Rightarrow> cc)\<rparr>)
                   else
                     Inr \<lparr>original = original_sentence, final = original_sentence,
                          has_changes = (has_changes \<and> gc_QA_passed s),
                          qa_concerns = [''Failed to find valid correction'']\<rparr>)))"

text \<open>One pass of the \<open>for\<close> loop over the sentences, lines 99 to 145.\<close>

definition grammar_correction_sentence ::
    "nat \<Rightarrow> llm \<Rightarrow> string \<Rightarrow> gc_state \<Rightarrow> calls
       \<Rightarrow> error + (gc_result_entry \<times> gc_state \<times> calls) run" where
  "grammar_correction_sentence fuel L original_sentence s w =
     (case grammar_correction_loop fuel L original_sentence
             (s\<lparr>gc_QA_passed := False, gc_attempt := 0\<rparr>) w of
        Inl e \<Rightarrow> Inl e
      | Inr (OutOfFuel s' w') \<Rightarrow> Inr (OutOfFuel s' w')
      | Inr (Finished (s', w')) \<Rightarrow>
          (case store_result original_sentence s' of
             Inl e \<Rightarrow> Inl e
           | Inr result_entry \<Rightarrow> Inr (Finished (result_entry, s', w'))))"

definition gc_init :: gc_state where
  "gc_init = \<lparr>gc_QA_passed = False, gc_attempt = 0, gc_correction = None,
              gc_qa_result = None, num_attempts = 0, qa_yielded_result = False\<rparr>"

text \<open>
  The \<open>for\<close> loop, over the \<open>sentence\<close> fields of the preprocessed sentences, and the
  function, which hands back only the list of entries.
\<close>

fun grammar_correction_sentences ::
    "nat \<Rightarrow> llm \<Rightarrow> string list \<Rightarrow> gc_result_entry list \<Rightarrow> gc_state \<Rightarrow> calls
       \<Rightarrow> error + (gc_result_entry list \<times> gc_state \<times> calls) run" where
  "grammar_correction_sentences fuel L [] corrected_results s w =
     Inr (Finished (corrected_results, s, w))"
| "grammar_correction_sentences fuel L (original_sentence # rest) corrected_results s w =
     (case grammar_correction_sentence fuel L original_sentence s w of
        Inl e \<Rightarrow> Inl e
      | Inr (OutOfFuel s' w') \<Rightarrow> Inr (OutOfFuel s' w')
      | Inr (Finished (result_entry, s', w')) \<Rightarrow>
          grammar_correction_sentences fuel L rest (corrected_results @ [result_entry]) s' w')"

definition grammar_correction_main ::
    "nat \<Rightarrow> llm \<Rightarrow> string list \<Rightarrow> calls \<Rightarrow> error + (gc_result_entry list \<times> gc_state \<times> calls) run" where
  "grammar_correction_main fuel L preprocessed_sentences w =
     grammar_correction_sentences fuel L preprocessed_sentences [] gc_init w"

text \<open>
  The spec's notion of an accepted verdict, and the two ways in which
  \<open>process_sentence\<close> counts a proposal as of low confidence.
\<close>

definition accepted :: "qa_verdict \<Rightarrow> bool" where
  "accepted q \<longleftrightarrow>
     is_valid q = Some True \<and> maintains_meaning q = Some True \<and> technical_accuracy q = Some True"

definition low_confidence :: "correction \<Rightarrow> bool" where
  "low_confidence c \<longleftrightarrow> (case confidence c of None \<Rightarrow> True | Some conf \<Rightarrow> conf \<le> 0.5)"

section \<open>Verdicts between two points of a run\<close>

text \<open>
  The verdicts a sentence obtains are the replies of the validator tape between the
  counter before and the counter after; the last of them is the one the loop ended on.
\<close>

definition last_verdict_accepted :: "llm \<Rightarrow> calls \<Rightarrow> calls \<Rightarrow> bool" where
  "last_verdict_accepted L w w' \<longleftrightarrow> n_qa w < n_qa w' \<and> accepted (qa_reply L (n_qa w' - 1))"



section \<open>Sample replies for the worked examples\<close>

definition good_verdict :: qa_verdict where
  "good_verdict = \<lparr>is_valid = Some True, maintains_meaning = Some True,
                    technical_accuracy = Some True, concerns = Some []\<rparr>"


definition empty_verdict :: qa_verdict where
  "empty_verdict = \<lparr>is_valid = None, maintains_meaning = None,
                     technical_accuracy = None, concerns = None\<rparr>"

definition proposal :: "string \<Rightarrow> real \<Rightarrow> correction" where
  "proposal cs conf = \<lparr>corrected_sentence = Some cs, confidence = Some conf,
                        explanation = Some ''fixed''\<rparr>"

text \<open>
  An extractor that always answers \<open>One.\<close>, a verifier that always rejects, a proposer
  of low confidence and a validator whose verdicts lack every field.
\<close>

definition L_demo :: llm where
  "L_demo = \<lparr>extract_reply = (\<lambda>k. Some ''One.''),
             verify_reply = (\<lambda>k. \<lparr>v_is_valid = Some False\<rparr>),
             propose_reply = (\<lambda>k. proposal ''One.'' (3/10)),
             qa_reply = (\<lambda>k. empty_verdict)\<rparr>"


definition L_accept :: llm where
  "L_accept = L_demo\<lparr>verify_reply := (\<lambda>k. \<lparr>v_is_valid = Some True\<rparr>),
                      propose_reply := (\<lambda>k. proposal ''Won.'' (9/10)),
                      qa_reply := (\<lambda>k. good_verdict)\<rparr>"

definition L_same :: llm where
  "L_same = L_demo\<lparr>propose_reply := (\<lambda>k. proposal ''One.'' (9/10)),
                    qa_reply := (\<lambda>k. good_verdict)\<rparr>"

definition L_stuck :: llm where
  "L_stuck = L_demo\<lparr>propose_reply := (\<lambda>k. proposal ''Won.'' (9/10))\<rparr>"

text \<open>Proposals without the \<open>confidence\<close> key.\<close>

definition L_no_confidence :: llm where
  "L_no_confidence =
     L_demo\<lparr>propose_reply := (\<lambda>k. \<lparr>corrected_sentence = Some ''Won.'', confidence = None,
                                    explanation = None\<rparr>)\<rparr>"

section \<open>What a run of a driver leaves\<close>

text \<open>An extractor that never answers with a blank text.\<close>

definition never_blank :: "llm \<Rightarrow> bool" where
  "never_blank L \<longleftrightarrow> (\<forall>k. \<exists>content. extract_reply L k = Some content \<and> strip content \<noteq> [])"

text \<open>
  A finished run of the loop of \<open>main\<close>, started with \<open>chars_processed\<close> characters
  counted and \<open>n_results\<close> entries written: it has consumed a prefix of the document,
  left the rest, which is blank, and written one entry per sentence.
\<close>

definition run_covers :: "string \<Rightarrow> nat \<Rightarrow> nat \<Rightarrow> nat
    \<Rightarrow> (error + (result_entry list \<times> nat \<times> nat \<times> string \<times> calls)) \<Rightarrow> bool" where
  "run_covers document sentence_count chars_processed n_results y \<longleftrightarrow>
     (case y of
        Inl e \<Rightarrow> True
      | Inr (results', sentence_count', chars_processed', rest, w') \<Rightarrow>
          chars_processed \<le> chars_processed'
          \<and> chars_processed' - chars_processed \<le> length document
          \<and> rest = drop (chars_processed' - chars_processed) document
          \<and> strip rest = []
          \<and> length results' + sentence_count = n_results + sentence_count')"

text \<open>The same for \<open>preprocessing_main\<close>, which keeps no count.\<close>

definition rest_is_suffix ::
    "string \<Rightarrow> (error + ((string \<times> nat) list \<times> string \<times> calls)) \<Rightarrow> bool" where
  "rest_is_suffix document y \<longleftrightarrow>
     (case y of
        Inl e \<Rightarrow> True
      | Inr (results', rest, w') \<Rightarrow>
          (\<exists>n. n \<le> length document \<and> rest = drop n document) \<and> length (strip rest) < 3)"

section \<open>Text search and extraction\<close>

lemma take_eq_iff_prefix: "take (length sub) hay = sub \<longleftrightarrow> (\<exists>s. hay = sub @ s)"
  by (metis append_eq_conv_conj append_take_drop_id)

lemma find_str_Some_bound: "find_str hay sub = Some i \<Longrightarrow> i + length sub \<le> length hay"
proof (induction hay arbitrary: i)
  case Nil
  then show ?case by (auto split: if_splits)
next
  case (Cons c cs)
  show ?case
  proof (cases "take (length sub) (c # cs) = sub")
    case True
    then have "length (take (length sub) (c # cs)) = length sub" by simp
    then have "length sub \<le> length (c # cs)" by simp
    with True Cons.prems show ?thesis by simp
  next
    case False
    with Cons.prems obtain j where "find_str cs sub = Some j" "i = Suc j" by auto
    with Cons.IH show ?thesis by fastforce
  qed
qed

lemma find_str_None_iff: "find_str hay sub = None \<longleftrightarrow> (\<forall>p s. hay \<noteq> p @ sub @ s)"
proof (induction hay)
  case Nil
  then show ?case by auto
next
  case (Cons c cs)
  have split: "(\<exists>p s. c # cs = p @ sub @ s) \<longleftrightarrow>
        (\<exists>s. c # cs = sub @ s) \<or> (\<exists>p s. cs = p @ sub @ s)"
  proof
    assume "\<exists>p s. c # cs = p @ sub @ s"
    then obtain p s where ps: "c # cs = p @ sub @ s" by blast
    show "(\<exists>s. c # cs = sub @ s) \<or> (\<exists>p s. cs = p @ sub @ s)"
    proof (cases p)
      case Nil
      with ps show ?thesis by auto
    next
      case (Cons a p')
      with ps show ?thesis by auto
    qed
  next
    assume "(\<exists>s. c # cs = sub @ s) \<or> (\<exists>p s. cs = p @ sub @ s)"
    then show "\<exists>p s. c # cs = p @ sub @ s"
    proof
      assume "\<exists>s. c # cs = sub @ s"
      then show ?thesis by (metis append_Nil)
    next
      assume "\<exists>p s. cs = p @ sub @ s"
      then show ?thesis by (metis append_Cons)
    qed
  qed
  show ?case
  proof (cases "take (length sub) (c # cs) = sub")
    case True
    then have "\<exists>s. c # cs = sub @ s" using take_eq_iff_prefix by blast
    with True split show ?thesis by auto
  next
    case False
    then have "\<not> (\<exists>s. c # cs = sub @ s)" using take_eq_iff_prefix by blast
    with False split Cons.IH show ?thesis by auto
  qed
qed

text \<open>
  Claim C8. When the sentence text the extractor returns (the stripped reply) occurs
  nowhere in the searched chunk \<open>text[:max_chunk]\<close>, extraction does not raise: it
  returns that text together with an end index equal to the length of the whole chunk.
\<close>

theorem extract_not_found_consumes_chunk:
  assumes "\<forall>p s. take max_chunk text \<noteq> p @ strip content @ s"
  shows "extract_sentence_from_queue text max_chunk (Some content)
           = Inr (strip content, length (take max_chunk text))"
  using assms by (simp add: extract_sentence_from_queue_def find_str_None_iff [symmetric])

theorem extract_not_found_consumes_chunk_witness:
  "(\<forall>p s. take 500 ''Hello world. Bye now.'' \<noteq> p @ strip '' Hello, world.'' @ s)
   \<and> extract_sentence_from_queue ''Hello world. Bye now.'' 500 (Some '' Hello, world.'')
       = Inr (''Hello, world.'', 21)"
proof -
  have nf: "find_str (take 500 ''Hello world. Bye now.'') (strip '' Hello, world.'') = None"
    by (simp add: strip_def isspace_def)
  have h: "\<forall>p s. take 500 ''Hello world. Bye now.'' \<noteq> p @ strip '' Hello, world.'' @ s"
    by (rule iffD1 [OF find_str_None_iff nf])
  have st: "strip '' Hello, world.'' = ''Hello, world.''" by (simp add: strip_def isspace_def)
  have "extract_sentence_from_queue ''Hello world. Bye now.'' 500 (Some '' Hello, world.'')
       = Inr (''Hello, world.'', 21)"
    using extract_not_found_consumes_chunk [OF h] by (simp add: st)
  with h show ?thesis by blast
qed

text \<open>
  Claim C9. The claim is that every call of the extractor on a non-empty document
  returns an end index of at least 1. A blank reply is a reply for which it does not:
  the stripped text is empty, \<open>find\<close> locates the empty string at index 0, the
  not-found fallback is not taken, and the end index is 0.
\<close>

theorem extract_empty_reply_consumes_nothing:
  "extract_sentence_from_queue ''Hello world.'' 500 (Some '' '') = Inr ('''', 0)"
  by (simp add: extract_sentence_from_queue_def strip_def isspace_def)

text \<open>Any reply with some non-blank text does consume at least one character.\<close>

lemma extract_end_index_pos:
  assumes "text \<noteq> []" "0 < max_chunk" "strip content \<noteq> []"
    and "extract_sentence_from_queue text max_chunk (Some content) = Inr (sentence, end_index)"
  shows "1 \<le> end_index"
  using assms
  by (cases "text") (auto simp: extract_sentence_from_queue_def Let_def Suc_le_eq split: option.splits)

lemma extract_end_index_le:
  assumes "extract_sentence_from_queue text max_chunk r = Inr (sentence, end_index)"
  shows "end_index \<le> length text"
  using assms find_str_Some_bound [of "take max_chunk text"]
  by (fastforce simp: extract_sentence_from_queue_def Let_def split: option.splits)

section \<open>The segmentation loop\<close>

declare segmentation_loop.simps [simp del]

lemma segmentation_loop_stop:
  assumes "v_is_valid (seg_verification s) = Some ok" "ok \<or> max_attempts \<le> seg_attempt s"
  shows "segmentation_loop L document s w = Inr (s, w)"
  using assms by (subst segmentation_loop.simps) auto

lemma segmentation_loop_step:
  assumes "v_is_valid (seg_verification s) = Some False" "seg_attempt s < max_attempts"
    and "extract_sentence_from_queue document (initial_sentence_length_upper_bound s)
           (extract_reply L (n_extract w)) = Inr (sentence, end_index)"
  shows "segmentation_loop L document s w =
         segmentation_loop L document
           (s\<lparr>seg_sentence := Some sentence, seg_end_index := Some end_index,
              seg_verification := verify_reply L (n_verify w),
              seg_attempt := seg_attempt s + 1,
              initial_sentence_length_upper_bound :=
                initial_sentence_length_upper_bound s + 200\<rparr>)
           (w\<lparr>n_extract := n_extract w + 1, n_verify := n_verify w + 1\<rparr>)"
  using assms by (subst segmentation_loop.simps) simp

lemma extract_Some_Inr:
  "\<exists>sentence end_index. extract_sentence_from_queue document b (Some c) = Inr (sentence, end_index)"
  by (simp add: extract_sentence_from_queue_def Let_def split: option.splits)

text \<open>m failed attempts in a row lead to a state m attempts later.\<close>

lemma segmentation_loop_failed_prefix:
  assumes "v_is_valid (seg_verification s) = Some False"
    and "seg_attempt s + m \<le> max_attempts"
    and "\<forall>k<m. extract_reply L (n_extract w + k) \<noteq> None"
    and "\<forall>k<m. v_is_valid (verify_reply L (n_verify w + k)) = Some False"
  shows "\<exists>s'. segmentation_loop L document s w =
               segmentation_loop L document s'
                 (w\<lparr>n_extract := n_extract w + m, n_verify := n_verify w + m\<rparr>)
             \<and> seg_attempt s' = seg_attempt s + m
             \<and> initial_sentence_length_upper_bound s' =
                 initial_sentence_length_upper_bound s + 200 * m
             \<and> v_is_valid (seg_verification s') = Some False"
  using assms
proof (induction m arbitrary: s w)
  case 0
  then show ?case by (intro exI [of _ s]) simp
next
  case (Suc m)
  from Suc.prems(3) obtain c where c: "extract_reply L (n_extract w) = Some c"
    by (metis add.right_neutral not_None_eq zero_less_Suc)
  obtain sentence end_index where
    ex: "extract_sentence_from_queue document (initial_sentence_length_upper_bound s)
           (extract_reply L (n_extract w)) = Inr (sentence, end_index)"
    using extract_Some_Inr c by metis
  define s1 where "s1 = s\<lparr>seg_sentence := Some sentence, seg_end_index := Some end_index,
              seg_verification := verify_reply L (n_verify w),
              seg_attempt := seg_attempt s + 1,
              initial_sentence_length_upper_bound :=
                initial_sentence_length_upper_bound s + 200\<rparr>"
  define w1 where "w1 = w\<lparr>n_extract := n_extract w + 1, n_verify := n_verify w + 1\<rparr>"
  have step: "segmentation_loop L document s w = segmentation_loop L document s1 w1"
    unfolding s1_def w1_def
    using segmentation_loop_step [OF Suc.prems(1) _ ex] Suc.prems(2) by simp
  have v1: "v_is_valid (seg_verification s1) = Some False"
    using Suc.prems(4) [rule_format, of 0] by (simp add: s1_def)
  have a1: "seg_attempt s1 + m \<le> max_attempts"
    using Suc.prems(2) by (simp add: s1_def)
  have e1: "\<forall>k<m. extract_reply L (n_extract w1 + k) \<noteq> None"
    using Suc.prems(3) [rule_format, of "Suc k" for k] by (simp add: w1_def)
  have q1: "\<forall>k<m. v_is_valid (verify_reply L (n_verify w1 + k)) = Some False"
    using Suc.prems(4) [rule_format, of "Suc k" for k] by (simp add: w1_def)
  from Suc.IH [OF v1 a1 e1 q1] obtain s' where
    s': "segmentation_loop L document s1 w1 =
           segmentation_loop L document s'
             (w1\<lparr>n_extract := n_extract w1 + m, n_verify := n_verify w1 + m\<rparr>)"
      "seg_attempt s' = seg_attempt s1 + m"
      "initial_sentence_length_upper_bound s' = initial_sentence_length_upper_bound s1 + 200 * m"
      "v_is_valid (seg_verification s') = Some False"
    by blast
  have "w1\<lparr>n_extract := n_extract w1 + m, n_verify := n_verify w1 + m\<rparr>
        = w\<lparr>n_extract := n_extract w + Suc m, n_verify := n_verify w + Suc m\<rparr>"
    by (simp add: w1_def)
  with step s' show ?case
    by (intro exI [of _ s']) (simp add: s1_def)
qed

text \<open>
  Claim C7. The segmentation loop starts with a size bound of 500 and adds 200 after
  every failed verification, so that attempt number \<open>n\<close> extracts with the bound
  \<open>500 + 200 * (n - 1)\<close>. It makes at most 5 attempts: it stops at the first attempt
  whose verification succeeds, and when the first 5 verifications all fail it stops
  after the fifth and returns the sentence and the end index of that last attempt,
  unverified.
\<close>

theorem segmentation_escalates_and_falls_back:
  assumes n: "1 \<le> n" "n \<le> 5"
    and ex: "\<forall>k<n. extract_reply L (n_extract w + k) \<noteq> None"
    and failed: "\<forall>k<n - 1. v_is_valid (verify_reply L (n_verify w + k)) = Some False"
    and last: "v_is_valid (verify_reply L (n_verify w + (n - 1))) = Some ok"
    and stop: "ok \<or> n = 5"
  shows "\<exists>sentence end_index s.
           extract_sentence_from_queue document (500 + 200 * (n - 1))
             (extract_reply L (n_extract w + (n - 1))) = Inr (sentence, end_index)
         \<and> segment L document w =
             Inr (sentence, end_index, s,
                  w\<lparr>n_extract := n_extract w + n, n_verify := n_verify w + n\<rparr>)
         \<and> seg_attempt s = n
         \<and> v_is_valid (seg_verification s) = Some ok"
proof -
  define m where "m = n - 1"
  have nm: "n = Suc m" using n by (simp add: m_def)
  have i0: "v_is_valid (seg_verification seg_init) = Some False"
    by (simp add: seg_init_def)
  have i1: "seg_attempt seg_init + m \<le> max_attempts"
    using n by (simp add: seg_init_def max_attempts_def m_def)
  have i2: "\<forall>k<m. extract_reply L (n_extract w + k) \<noteq> None"
    using ex by (simp add: nm)
  have i3: "\<forall>k<m. v_is_valid (verify_reply L (n_verify w + k)) = Some False"
    using failed by (simp add: m_def)
  from segmentation_loop_failed_prefix [OF i0 i1 i2 i3, of document] obtain s' where
    s': "segmentation_loop L document seg_init w =
           segmentation_loop L document s'
             (w\<lparr>n_extract := n_extract w + m, n_verify := n_verify w + m\<rparr>)"
      "seg_attempt s' = seg_attempt seg_init + m"
      "initial_sentence_length_upper_bound s' =
         initial_sentence_length_upper_bound seg_init + 200 * m"
      "v_is_valid (seg_verification s') = Some False"
    by blast
  define w1 where "w1 = w\<lparr>n_extract := n_extract w + m, n_verify := n_verify w + m\<rparr>"
  have am: "seg_attempt s' = m" and bm: "initial_sentence_length_upper_bound s' = 500 + 200 * m"
    using s'(2,3) by (simp_all add: seg_init_def)
  from ex obtain c where c: "extract_reply L (n_extract w + m) = Some c"
    by (metis lessI nm not_None_eq)
  obtain sentence end_index where
    e: "extract_sentence_from_queue document (500 + 200 * m)
          (extract_reply L (n_extract w + m)) = Inr (sentence, end_index)"
    using extract_Some_Inr c by metis
  define s2 where "s2 = s'\<lparr>seg_sentence := Some sentence, seg_end_index := Some end_index,
              seg_verification := verify_reply L (n_verify w1),
              seg_attempt := seg_attempt s' + 1,
              initial_sentence_length_upper_bound :=
                initial_sentence_length_upper_bound s' + 200\<rparr>"
  define w2 where "w2 = w1\<lparr>n_extract := n_extract w1 + 1, n_verify := n_verify w1 + 1\<rparr>"
  have lt: "seg_attempt s' < max_attempts"
    using n am by (simp add: max_attempts_def nm)
  have e': "extract_sentence_from_queue document (initial_sentence_length_upper_bound s')
          (extract_reply L (n_extract w1)) = Inr (sentence, end_index)"
    using e by (simp add: bm w1_def)
  have step: "segmentation_loop L document s' w1 = segmentation_loop L document s2 w2"
    unfolding s2_def w2_def by (rule segmentation_loop_step [OF s'(4) lt e'])
  have v2: "v_is_valid (seg_verification s2) = Some ok"
    using last by (simp add: s2_def w1_def m_def)
  have a2: "seg_attempt s2 = n" by (simp add: s2_def am nm)
  have "ok \<or> max_attempts \<le> seg_attempt s2"
    using stop a2 by (auto simp: max_attempts_def)
  from segmentation_loop_stop [OF v2 this]
  have fin: "segmentation_loop L document seg_init w = Inr (s2, w2)"
    using s'(1) step by (simp add: w1_def)
  have w2eq: "w2 = w\<lparr>n_extract := n_extract w + n, n_verify := n_verify w + n\<rparr>"
    by (simp add: w2_def w1_def nm)
  have "segment L document w = Inr (sentence, end_index, s2, w2)"
    by (simp add: segment_def fin v2) (simp add: s2_def)
  with e v2 a2 w2eq show ?thesis
    by (intro exI [of _ sentence] exI [of _ end_index] exI [of _ s2]) (simp add: m_def)
qed

theorem segmentation_escalates_and_falls_back_witness:
  "\<exists>s. segment L_demo ''One. Two.'' no_calls =
        Inr (''One.'', 4, s, \<lparr>n_extract = 5, n_verify = 5, n_propose = 0, n_qa = 0\<rparr>)
      \<and> seg_attempt s = 5 \<and> v_is_valid (seg_verification s) = Some False"
proof -
  have e: "extract_sentence_from_queue ''One. Two.'' (500 + 200 * (5 - 1)) (Some ''One.'') = Inr (''One.'', 4)"
    by (simp add: extract_sentence_from_queue_def strip_def isspace_def)
  show ?thesis
    using segmentation_escalates_and_falls_back [of 5 L_demo no_calls False "''One. Two.''"] e
    by (simp add: L_demo_def no_calls_def)
qed

section \<open>The correction loop of process_sentence\<close>

declare correction_loop.simps [simp del]

lemma correction_loop_stop:
  "QA_passed s \<or> max_correction_attempts \<le> correction_attempt s \<Longrightarrow>
   correction_loop L sentence s w = Inr (s, w)"
  by (subst correction_loop.simps) auto

lemma correction_loop_skip:
  assumes "\<not> QA_passed s" "correction_attempt s < max_correction_attempts"
    and "low_confidence (propose_reply L (n_propose w))"
  shows "correction_loop L sentence s w =
         correction_loop L sentence
           (s\<lparr>correction := Some (propose_reply L (n_propose w)),
              correction_attempt := correction_attempt s + 1\<rparr>)
           (w\<lparr>n_propose := n_propose w + 1\<rparr>)"
  using assms
  by (subst correction_loop.simps) (auto simp: low_confidence_def Let_def split: option.splits)

lemma correction_loop_KeyError:
  assumes "\<not> QA_passed s" "correction_attempt s < max_correction_attempts"
    and "\<not> low_confidence (propose_reply L (n_propose w))"
    and "corrected_sentence (propose_reply L (n_propose w)) = None"
  shows "correction_loop L sentence s w = Inl KeyError"
  using assms
  by (subst correction_loop.simps) (auto simp: low_confidence_def Let_def split: option.splits)

lemma correction_loop_retry:
  assumes "\<not> QA_passed s" "correction_attempt s < max_correction_attempts"
    and "\<not> low_confidence (propose_reply L (n_propose w))"
    and "corrected_sentence (propose_reply L (n_propose w)) \<noteq> None"
    and "\<not> accepted (qa_reply L (n_qa w))"
  shows "correction_loop L sentence s w =
         correction_loop L sentence
           (s\<lparr>correction := Some (propose_reply L (n_propose w)),
              qa_result := Some (qa_reply L (n_qa w)),
              correction_attempt := correction_attempt s + 1\<rparr>)
           (w\<lparr>n_propose := n_propose w + 1, n_qa := n_qa w + 1\<rparr>)"
  using assms
  by (subst correction_loop.simps)
     (auto simp: low_confidence_def accepted_def Let_def split: option.splits)

lemma correction_loop_accept:
  assumes "\<not> QA_passed s" "correction_attempt s < max_correction_attempts"
    and "\<not> low_confidence (propose_reply L (n_propose w))"
    and "corrected_sentence (propose_reply L (n_propose w)) \<noteq> None"
    and "accepted (qa_reply L (n_qa w))"
  shows "correction_loop L sentence s w =
         Inr (s\<lparr>correction := Some (propose_reply L (n_propose w)),
                qa_result := Some (qa_reply L (n_qa w)),
                QA_passed := True\<rparr>,
              w\<lparr>n_propose := n_propose w + 1, n_qa := n_qa w + 1\<rparr>)"
  using assms
  by (subst correction_loop.simps)
     (auto simp: low_confidence_def accepted_def Let_def split: option.splits)

text \<open>Induction over the passes of a run of the loop that returns.\<close>

lemma correction_loop_run_induct [consumes 1, case_names stop skip retry accept]:
  assumes run: "correction_loop L sentence s w = Inr (s', w')"
    and stop: "\<And>s w. QA_passed s \<or> max_correction_attempts \<le> correction_attempt s \<Longrightarrow>
                 s' = s \<Longrightarrow> w' = w \<Longrightarrow> P s w"
    and skip: "\<And>s w. \<not> QA_passed s \<Longrightarrow> correction_attempt s < max_correction_attempts \<Longrightarrow>
                 low_confidence (propose_reply L (n_propose w)) \<Longrightarrow>
                 P (s\<lparr>correction := Some (propose_reply L (n_propose w)),
                      correction_attempt := correction_attempt s + 1\<rparr>)
                   (w\<lparr>n_propose := n_propose w + 1\<rparr>) \<Longrightarrow>
                 P s w"
    and retry: "\<And>s w. \<not> QA_passed s \<Longrightarrow> correction_attempt s < max_correction_attempts \<Longrightarrow>
                 \<not> low_confidence (propose_reply L (n_propose w)) \<Longrightarrow>
                 corrected_sentence (propose_reply L (n_propose w)) \<noteq> None \<Longrightarrow>
                 \<not> accepted (qa_reply L (n_qa w)) \<Longrightarrow>
                 P (s\<lparr>correction := Some (propose_reply L (n_propose w)),
                      qa_result := Some (qa_reply L (n_qa w)),
                      correction_attempt := correction_attempt s + 1\<rparr>)
                   (w\<lparr>n_propose := n_propose w + 1, n_qa := n_qa w + 1\<rparr>) \<Longrightarrow>
                 P s w"
    and accept: "\<And>s w. \<not> QA_passed s \<Longrightarrow> correction_attempt s < max_correction_attempts \<Longrightarrow>
                 \<not> low_confidence (propose_reply L (n_propose w)) \<Longrightarrow>
                 corrected_sentence (propose_reply L (n_propose w)) \<noteq> None \<Longrightarrow>
                 accepted (qa_reply L (n_qa w)) \<Longrightarrow>
                 s' = s\<lparr>correction := Some (propose_reply L (n_propose w)),
                        qa_result := Some (qa_reply L (n_qa w)),
                        QA_passed := True\<rparr> \<Longrightarrow>
                 w' = w\<lparr>n_propose := n_propose w + 1, n_qa := n_qa w + 1\<rparr> \<Longrightarrow>
                 P s w"
  shows "P s w"
  using run
proof (induction "max_correction_attempts - correction_attempt s" arbitrary: s w rule: less_induct)
  case less
  show ?case
  proof (cases "QA_passed s \<or> max_correction_attempts \<le> correction_attempt s")
    case True
    with less.prems correction_loop_stop [OF True, of L sentence w] show ?thesis
      by (intro stop) auto
  next
    case False
    then have np: "\<not> QA_passed s" and lt: "correction_attempt s < max_correction_attempts"
      by auto
    show ?thesis
    proof (cases "low_confidence (propose_reply L (n_propose w))")
      case True
      show ?thesis
      proof (rule skip [OF np lt True], rule less.hyps)
        show "correction_loop L sentence
               (s\<lparr>correction := Some (propose_reply L (n_propose w)),
                  correction_attempt := correction_attempt s + 1\<rparr>)
               (w\<lparr>n_propose := n_propose w + 1\<rparr>) = Inr (s', w')"
          using less.prems correction_loop_skip [OF np lt True, of sentence] by simp
      qed (use lt in simp)
    next
      case conf: False
      show ?thesis
      proof (cases "corrected_sentence (propose_reply L (n_propose w)) = None")
        case True
        with less.prems correction_loop_KeyError [OF np lt conf True, of sentence]
        show ?thesis by simp
      next
        case cs: False
        show ?thesis
        proof (cases "accepted (qa_reply L (n_qa w))")
          case True
          with less.prems correction_loop_accept [OF np lt conf cs True, of sentence]
          show ?thesis by (intro accept [OF np lt conf cs True]) auto
        next
          case False
          show ?thesis
          proof (rule retry [OF np lt conf cs False], rule less.hyps)
            show "correction_loop L sentence
                   (s\<lparr>correction := Some (propose_reply L (n_propose w)),
                      qa_result := Some (qa_reply L (n_qa w)),
                      correction_attempt := correction_attempt s + 1\<rparr>)
                   (w\<lparr>n_propose := n_propose w + 1, n_qa := n_qa w + 1\<rparr>) = Inr (s', w')"
              using less.prems correction_loop_retry [OF np lt conf cs False, of sentence] by simp
          qed (use lt in simp)
        qed
      qed
    qed
  qed
qed

lemma correction_loop_calls_mono:
  assumes "correction_loop L sentence s w = Inr (s', w')"
  shows "n_qa w \<le> n_qa w' \<and> n_propose w \<le> n_propose w'
         \<and> n_extract w' = n_extract w \<and> n_verify w' = n_verify w"
  using assms by (induction rule: correction_loop_run_induct) auto

lemma correction_loop_passed:
  assumes "correction_loop L sentence s w = Inr (s', w')" "\<not> QA_passed s" "QA_passed s'"
  shows "n_qa w < n_qa w' \<and> n_propose w < n_propose w'
         \<and> accepted (qa_reply L (n_qa w' - 1))
         \<and> qa_result s' = Some (qa_reply L (n_qa w' - 1))
         \<and> correction s' = Some (propose_reply L (n_propose w' - 1))
         \<and> corrected_sentence (propose_reply L (n_propose w' - 1)) \<noteq> None
         \<and> \<not> low_confidence (propose_reply L (n_propose w' - 1))"
  using assms
proof (induction rule: correction_loop_run_induct)
  case (stop s w)
  then show ?case by simp
next
  case (skip s w)
  then show ?case by simp
next
  case (retry s w)
  then show ?case by simp
next
  case (accept s w)
  then show ?case by simp
qed

lemma correction_loop_accepted_is_last:
  assumes "correction_loop L sentence s w = Inr (s', w')" "\<not> QA_passed s"
    and "n_qa w \<le> i" "i < n_qa w'" "accepted (qa_reply L i)"
  shows "QA_passed s' \<and> Suc i = n_qa w'"
  using assms
proof (induction rule: correction_loop_run_induct)
  case (stop s w)
  then show ?case by simp
next
  case (skip s w)
  then show ?case by simp
next
  case (retry s w)
  then have "i \<noteq> n_qa w" by auto
  with retry show ?case by simp
next
  case (accept s w)
  then show ?case by simp
qed

lemma correction_loop_count:
  assumes "correction_loop L sentence s w = Inr (s', w')" "\<not> QA_passed s"
    and "correction_attempt s \<le> max_correction_attempts"
  shows "n_propose w' + correction_attempt s
           = n_propose w + correction_attempt s' + (if QA_passed s' then 1 else 0)
         \<and> correction_attempt s' \<le> max_correction_attempts
         \<and> (QA_passed s' \<longrightarrow> correction_attempt s' < max_correction_attempts)
         \<and> (\<not> QA_passed s' \<longrightarrow> correction_attempt s' = max_correction_attempts)"
  using assms
proof (induction rule: correction_loop_run_induct)
  case (stop s w)
  then show ?case by auto
next
  case (skip s w)
  then show ?case by simp
next
  case (retry s w)
  then show ?case by simp
next
  case (accept s w)
  then show ?case by simp
qed

lemma correction_loop_qa_le_propose:
  assumes "correction_loop L sentence s w = Inr (s', w')"
  shows "n_qa w' + n_propose w \<le> n_qa w + n_propose w'"
  using assms by (induction rule: correction_loop_run_induct) auto

section \<open>The loops of grammar_correction_main\<close>

declare grammar_correction_loop.simps [simp del]

lemma qa_loop_finished_run:
  assumes "qa_loop fuel L original_sentence s w = Inr (Finished (s', w'))"
    and "num_attempts s < max_qa_attempts" "\<not> qa_yielded_result s"
  shows "n_qa w < n_qa w' \<and> n_qa w' \<le> n_qa w + fuel \<and> n_propose w' = n_propose w
         \<and> gc_correction s' = gc_correction s
         \<and> gc_qa_result s' = Some (qa_reply L (n_qa w' - 1))
         \<and> (\<forall>i. n_qa w \<le> i \<and> Suc i < n_qa w' \<longrightarrow> \<not> accepted (qa_reply L i))
         \<and> (if accepted (qa_reply L (n_qa w' - 1))
             then gc_QA_passed s' \<and> gc_attempt s' = gc_attempt s
             else gc_QA_passed s' = gc_QA_passed s \<and> gc_attempt s' = gc_attempt s + 1)"
  using assms
proof (induction fuel arbitrary: s w)
  case 0
  then show ?case by simp
next
  case (Suc fuel)
  from Suc.prems(1,2) obtain c cs where c: "gc_correction s = Some c" "corrected_sentence c = Some cs"
    by (auto split: option.splits)
  define q where "q = qa_reply L (n_qa w)"
  define w1 where "w1 = w\<lparr>n_qa := n_qa w + 1\<rparr>"
  define s1 where "s1 = s\<lparr>gc_qa_result := Some q\<rparr>"
  show ?case
  proof (cases "is_valid q \<noteq> None \<and> maintains_meaning q \<noteq> None \<and> technical_accuracy q \<noteq> None")
    case True
    show ?thesis
    proof (cases "accepted q")
      case acc: True
      with True Suc.prems c have "s' = s1\<lparr>gc_QA_passed := True\<rparr>" "w' = w1"
        by (auto simp: Let_def accepted_def q_def w1_def s1_def)
      with acc show ?thesis by (auto simp: s1_def w1_def q_def)
    next
      case rej: False
      with True Suc.prems c
      have "s' = s1\<lparr>gc_attempt := gc_attempt s1 + 1, qa_yielded_result := True\<rparr>" "w' = w1"
        by (auto simp: Let_def accepted_def q_def w1_def s1_def)
      with rej show ?thesis by (auto simp: s1_def w1_def q_def)
    qed
  next
    case False
    then have nacc: "\<not> accepted q" by (auto simp: accepted_def)
    from False Suc.prems c
    have rec: "qa_loop fuel L original_sentence s1 w1 = Inr (Finished (s', w'))"
      by (auto simp: Let_def q_def w1_def s1_def)
    have p1: "num_attempts s1 < max_qa_attempts" "\<not> qa_yielded_result s1"
      using Suc.prems by (simp_all add: s1_def)
    note ih = Suc.IH [OF rec p1]
    have "\<And>i. n_qa w \<le> i \<Longrightarrow> Suc i < n_qa w' \<Longrightarrow> \<not> accepted (qa_reply L i)"
    proof -
      fix i assume i: "n_qa w \<le> i" "Suc i < n_qa w'"
      show "\<not> accepted (qa_reply L i)"
      proof (cases "i = n_qa w")
        case True
        with nacc show ?thesis by (simp add: q_def)
      next
        case False
        with i have "n_qa w1 \<le> i" by (simp add: w1_def)
        with ih i show ?thesis by blast
      qed
    qed
    with ih show ?thesis by (simp add: s1_def w1_def)
  qed
qed

lemma qa_loop_cut_off_run:
  assumes "qa_loop fuel L original_sentence s w = Inr (OutOfFuel s' w')"
    and "\<not> qa_yielded_result s"
  shows "n_qa w' = n_qa w + fuel \<and> n_propose w' = n_propose w
         \<and> gc_attempt s' = gc_attempt s \<and> gc_QA_passed s' = gc_QA_passed s
         \<and> (\<forall>i. n_qa w \<le> i \<and> i < n_qa w' \<longrightarrow> \<not> accepted (qa_reply L i))"
  using assms
proof (induction fuel arbitrary: s w)
  case 0
  then show ?case by (auto split: if_splits)
next
  case (Suc fuel)
  from Suc.prems(1) have lt: "num_attempts s < max_qa_attempts"
    by (auto split: if_splits)
  from Suc.prems(1) lt obtain c cs where c: "gc_correction s = Some c" "corrected_sentence c = Some cs"
    by (auto split: option.splits)
  define q where "q = qa_reply L (n_qa w)"
  define w1 where "w1 = w\<lparr>n_qa := n_qa w + 1\<rparr>"
  define s1 where "s1 = s\<lparr>gc_qa_result := Some q\<rparr>"
  have miss: "\<not> (is_valid q \<noteq> None \<and> maintains_meaning q \<noteq> None \<and> technical_accuracy q \<noteq> None)"
    using Suc.prems lt c by (auto simp: Let_def q_def split: if_splits)
  then have nacc: "\<not> accepted q" by (auto simp: accepted_def)
  from miss Suc.prems c lt
  have rec: "qa_loop fuel L original_sentence s1 w1 = Inr (OutOfFuel s' w')"
    by (auto simp: Let_def q_def w1_def s1_def)
  have p1: "\<not> qa_yielded_result s1"
    using Suc.prems by (simp add: s1_def)
  note ih = Suc.IH [OF rec p1]
  have "\<And>i. n_qa w \<le> i \<Longrightarrow> i < n_qa w' \<Longrightarrow> \<not> accepted (qa_reply L i)"
  proof -
    fix i assume i: "n_qa w \<le> i" "i < n_qa w'"
    show "\<not> accepted (qa_reply L i)"
    proof (cases "i = n_qa w")
      case True
      with nacc show ?thesis by (simp add: q_def)
    next
      case False
      with i have "n_qa w1 \<le> i" by (simp add: w1_def)
      with ih i show ?thesis by blast
    qed
  qed
  with ih show ?case by (simp add: s1_def w1_def)
qed

lemma grammar_correction_loop_stop:
  "gc_QA_passed s \<or> max_attempts \<le> gc_attempt s \<Longrightarrow>
   grammar_correction_loop fuel L original_sentence s w = Inr (Finished (s, w))"
  by (subst grammar_correction_loop.simps) auto

lemma grammar_correction_loop_KeyError:
  assumes "\<not> gc_QA_passed s" "gc_attempt s < max_attempts"
    and "confidence (propose_reply L (n_propose w)) = None"
  shows "grammar_correction_loop fuel L original_sentence s w = Inl KeyError"
  using assms by (subst grammar_correction_loop.simps) (simp add: Let_def)

lemma grammar_correction_loop_skip:
  assumes "\<not> gc_QA_passed s" "gc_attempt s < max_attempts"
    and "confidence (propose_reply L (n_propose w)) = Some conf" "conf \<le> 0.5"
  shows "grammar_correction_loop fuel L original_sentence s w =
         grammar_correction_loop fuel L original_sentence
           (s\<lparr>gc_correction := Some (propose_reply L (n_propose w)),
              gc_attempt := gc_attempt s + 1\<rparr>)
           (w\<lparr>n_propose := n_propose w + 1\<rparr>)"
  using assms by (subst grammar_correction_loop.simps) (simp add: Let_def)

lemma grammar_correction_loop_qa:
  assumes "\<not> gc_QA_passed s" "gc_attempt s < max_attempts"
    and "confidence (propose_reply L (n_propose w)) = Some conf" "\<not> conf \<le> 0.5"
  shows "grammar_correction_loop fuel L original_sentence s w =
         (case qa_loop fuel L original_sentence
                 (s\<lparr>gc_correction := Some (propose_reply L (n_propose w)),
                    num_attempts := 0, qa_yielded_result := False\<rparr>)
                 (w\<lparr>n_propose := n_propose w + 1\<rparr>) of
            Inl e \<Rightarrow> Inl e
          | Inr (OutOfFuel s2 w2) \<Rightarrow> Inr (OutOfFuel s2 w2)
          | Inr (Finished (s2, w2)) \<Rightarrow> grammar_correction_loop fuel L original_sentence s2 w2)"
  using assms by (subst grammar_correction_loop.simps) (simp add: Let_def)

text \<open>Induction over the passes of a run of the outer loop that raises nothing.\<close>

lemma grammar_correction_loop_run_induct [consumes 1, case_names stop skip cut accept retry]:
  assumes run: "grammar_correction_loop fuel L original_sentence s w = Inr r"
    and stop: "\<And>s w. gc_QA_passed s \<or> max_attempts \<le> gc_attempt s \<Longrightarrow>
                 r = Finished (s, w) \<Longrightarrow> P s w"
    and skip: "\<And>s w conf. \<not> gc_QA_passed s \<Longrightarrow> gc_attempt s < max_attempts \<Longrightarrow>
                 confidence (propose_reply L (n_propose w)) = Some conf \<Longrightarrow> conf \<le> 0.5 \<Longrightarrow>
                 P (s\<lparr>gc_correction := Some (propose_reply L (n_propose w)),
                      gc_attempt := gc_attempt s + 1\<rparr>)
                   (w\<lparr>n_propose := n_propose w + 1\<rparr>) \<Longrightarrow>
                 P s w"
    and cut: "\<And>s w conf s2 w2. \<not> gc_QA_passed s \<Longrightarrow> gc_attempt s < max_attempts \<Longrightarrow>
                 confidence (propose_reply L (n_propose w)) = Some conf \<Longrightarrow> \<not> conf \<le> 0.5 \<Longrightarrow>
                 qa_loop fuel L original_sentence
                   (s\<lparr>gc_correction := Some (propose_reply L (n_propose w)),
                      num_attempts := 0, qa_yielded_result := False\<rparr>)
                   (w\<lparr>n_propose := n_propose w + 1\<rparr>) = Inr (OutOfFuel s2 w2) \<Longrightarrow>
                 r = OutOfFuel s2 w2 \<Longrightarrow> P s w"
    and accept: "\<And>s w conf s2 w2. \<not> gc_QA_passed s \<Longrightarrow> gc_attempt s < max_attempts \<Longrightarrow>
                 confidence (propose_reply L (n_propose w)) = Some conf \<Longrightarrow> \<not> conf \<le> 0.5 \<Longrightarrow>
                 qa_loop fuel L original_sentence
                   (s\<lparr>gc_correction := Some (propose_reply L (n_propose w)),
                      num_attempts := 0, qa_yielded_result := False\<rparr>)
                   (w\<lparr>n_propose := n_propose w + 1\<rparr>) = Inr (Finished (s2, w2)) \<Longrightarrow>
                 gc_QA_passed s2 \<Longrightarrow> r = Finished (s2, w2) \<Longrightarrow> P s w"
    and retry: "\<And>s w conf s2 w2. \<not> gc_QA_passed s \<Longrightarrow> gc_attempt s < max_attempts \<Longrightarrow>
                 confidence (propose_reply L (n_propose w)) = Some conf \<Longrightarrow> \<not> conf \<le> 0.5 \<Longrightarrow>
                 qa_loop fuel L original_sentence
                   (s\<lparr>gc_correction := Some (propose_reply L (n_propose w)),
                      num_attempts := 0, qa_yielded_result := False\<rparr>)
                   (w\<lparr>n_propose := n_propose w + 1\<rparr>) = Inr (Finished (s2, w2)) \<Longrightarrow>
                 \<not> gc_QA_passed s2 \<Longrightarrow> P s2 w2 \<Longrightarrow> P s w"
  shows "P s w"
  using run
proof (induction "if gc_QA_passed s then 0 else Suc max_attempts - gc_attempt s"
         arbitrary: s w rule: less_induct)
  case less
  show ?case
  proof (cases "gc_QA_passed s \<or> max_attempts \<le> gc_attempt s")
    case True
    with less.prems grammar_correction_loop_stop [OF True, of fuel L original_sentence w]
    show ?thesis by (intro stop) auto
  next
    case False
    then have np: "\<not> gc_QA_passed s" and lt: "gc_attempt s < max_attempts" by auto
    show ?thesis
    proof (cases "confidence (propose_reply L (n_propose w))")
      case None
      with less.prems grammar_correction_loop_KeyError [OF np lt None, of fuel original_sentence]
      show ?thesis by simp
    next
      case (Some conf)
      show ?thesis
      proof (cases "conf \<le> 0.5")
        case True
        show ?thesis
        proof (rule skip [OF np lt Some True], rule less.hyps)
          show "grammar_correction_loop fuel L original_sentence
                  (s\<lparr>gc_correction := Some (propose_reply L (n_propose w)),
                     gc_attempt := gc_attempt s + 1\<rparr>)
                  (w\<lparr>n_propose := n_propose w + 1\<rparr>) = Inr r"
            using less.prems grammar_correction_loop_skip [OF np lt Some True, of fuel original_sentence]
            by simp
        qed (use np lt in simp)
      next
        case hi: False
        define s1 where "s1 = s\<lparr>gc_correction := Some (propose_reply L (n_propose w)),
                      num_attempts := 0, qa_yielded_result := False\<rparr>"
        define w1 where "w1 = w\<lparr>n_propose := n_propose w + 1\<rparr>"
        note unf = grammar_correction_loop_qa [OF np lt Some hi, of fuel original_sentence,
                     folded s1_def w1_def]
        show ?thesis
        proof (cases "qa_loop fuel L original_sentence s1 w1")
          case (Inl e)
          with less.prems unf show ?thesis by simp
        next
          case (Inr x)
          show ?thesis
          proof (cases x)
            case (OutOfFuel s2 w2)
            with Inr less.prems unf have "r = OutOfFuel s2 w2" by simp
            with Inr OutOfFuel show ?thesis
              by (intro cut [OF np lt Some hi, of s2 w2]) (simp_all add: s1_def w1_def)
          next
            case (Finished p)
            obtain s2 w2 where p: "p = (s2, w2)" by (cases p)
            have fin: "qa_loop fuel L original_sentence s1 w1 = Inr (Finished (s2, w2))"
              using Inr Finished p by simp
            have rec: "grammar_correction_loop fuel L original_sentence s2 w2 = Inr r"
              using less.prems unf fin by simp
            have "gc_QA_passed s2 \<or> gc_attempt s2 = gc_attempt s1 + 1"
              by (rule qa_loop_Finished [OF fin]) (simp_all add: s1_def max_qa_attempts_def)
            then have dec: "(if gc_QA_passed s2 then 0 else Suc max_attempts - gc_attempt s2)
                     < (if gc_QA_passed s then 0 else Suc max_attempts - gc_attempt s)"
              using np lt by (auto simp: s1_def)
            show ?thesis
            proof (cases "gc_QA_passed s2")
              case True
              then have "r = Finished (s2, w2)"
                using rec grammar_correction_loop_stop [of s2 fuel L original_sentence w2] by simp
              with True show ?thesis
                by (intro accept [OF np lt Some hi fin [unfolded s1_def w1_def]])
            next
              case False
              show ?thesis
                by (rule retry [OF np lt Some hi fin [unfolded s1_def w1_def] False])
                   (rule less.hyps [OF dec rec])
            qed
          qed
        qed
      qed
    qed
  qed
qed

lemma qa_loop_finished_fresh:
  assumes "qa_loop fuel L original_sentence
             (s\<lparr>gc_correction := Some c, num_attempts := 0, qa_yielded_result := False\<rparr>) w
           = Inr (Finished (s', w'))"
  shows "n_qa w < n_qa w'" "n_propose w' = n_propose w" "gc_correction s' = Some c"
    "gc_qa_result s' = Some (qa_reply L (n_qa w' - 1))"
    "\<And>i. n_qa w \<le> i \<Longrightarrow> Suc i < n_qa w' \<Longrightarrow> \<not> accepted (qa_reply L i)"
    "accepted (qa_reply L (n_qa w' - 1)) \<Longrightarrow> gc_QA_passed s' \<and> gc_attempt s' = gc_attempt s"
    "\<not> accepted (qa_reply L (n_qa w' - 1)) \<Longrightarrow>
       gc_QA_passed s' = gc_QA_passed s \<and> gc_attempt s' = gc_attempt s + 1"
  using qa_loop_finished_run [OF assms] by (simp_all add: max_qa_attempts_def)

lemma qa_loop_cut_off_fresh:
  assumes "qa_loop fuel L original_sentence
             (s\<lparr>gc_correction := Some c, num_attempts := 0, qa_yielded_result := False\<rparr>) w
           = Inr (OutOfFuel s' w')"
  shows "n_qa w' = n_qa w + fuel" "n_propose w' = n_propose w"
    "gc_attempt s' = gc_attempt s" "gc_QA_passed s' = gc_QA_passed s"
    "\<And>i. n_qa w \<le> i \<Longrightarrow> i < n_qa w' \<Longrightarrow> \<not> accepted (qa_reply L i)"
  using qa_loop_cut_off_run [OF assms] by simp_all

lemma grammar_correction_loop_passed:
  assumes "grammar_correction_loop fuel L original_sentence s w = Inr r"
    and "r = Finished (s', w')" "\<not> gc_QA_passed s" "gc_QA_passed s'"
  shows "n_qa w < n_qa w' \<and> n_propose w < n_propose w'
         \<and> accepted (qa_reply L (n_qa w' - 1))
         \<and> gc_qa_result s' = Some (qa_reply L (n_qa w' - 1))
         \<and> gc_correction s' = Some (propose_reply L (n_propose w' - 1))"
  using assms
proof (induction rule: grammar_correction_loop_run_induct)
  case (stop s w)
  then show ?case by simp
next
  case (skip s w conf)
  then show ?case by simp
next
  case (cut s w conf s2 w2)
  then show ?case by simp
next
  case (accept s w conf s2 w2)
  note f = qa_loop_finished_fresh [OF accept.hyps(5)]
  from accept have eq: "s' = s2" "w' = w2" by simp_all
  from f accept.hyps(1,6) show ?case
    unfolding eq by (auto split: if_splits)
next
  case (retry s w conf s2 w2)
  note f = qa_loop_finished_fresh [OF retry.hyps(5)]
  from retry.IH [OF retry.prems(1) retry.hyps(6) retry.prems(3)] f
  show ?case by simp
qed

lemma grammar_correction_loop_accepted_is_last:
  assumes "grammar_correction_loop fuel L original_sentence s w = Inr r"
    and "r = Finished (s', w')" "\<not> gc_QA_passed s"
    and "n_qa w \<le> i" "i < n_qa w'" "accepted (qa_reply L i)"
  shows "gc_QA_passed s' \<and> Suc i = n_qa w'"
  using assms
proof (induction rule: grammar_correction_loop_run_induct)
  case (stop s w)
  then show ?case by simp
next
  case (skip s w conf)
  then show ?case by simp
next
  case (cut s w conf s2 w2)
  then show ?case by simp
next
  case (accept s w conf s2 w2)
  note f = qa_loop_finished_fresh [OF accept.hyps(5)]
  from accept have eq: "s' = s2" "w' = w2" by simp_all
  have "\<not> Suc i < n_qa w2"
    using f accept.prems by auto
  with accept.prems accept.hyps(6) show ?case
    unfolding eq by simp
next
  case (retry s w conf s2 w2)
  note f = qa_loop_finished_fresh [OF retry.hyps(5)]
  have nl: "\<not> accepted (qa_reply L (n_qa w2 - 1))"
    using f retry.hyps(1,6) by (auto split: if_splits)
  have "n_qa w2 \<le> i"
  proof (rule ccontr)
    assume "\<not> n_qa w2 \<le> i"
    then have "i < n_qa w2" by simp
    then have "Suc i < n_qa w2 \<or> i = n_qa w2 - 1" by auto
    with f nl retry.prems show False by auto
  qed
  from retry.IH [OF retry.prems(1) retry.hyps(6) this retry.prems(4,5)]
  show ?case .
qed

text \<open>The number of proposals fetched, for a run that finishes and for one cut off.\<close>

lemma grammar_correction_loop_count:
  assumes "grammar_correction_loop fuel L original_sentence s w = Inr r"
    and "\<not> gc_QA_passed s" "gc_attempt s \<le> max_attempts"
  shows "(case r of
            Finished (s', w') \<Rightarrow>
              n_propose w' + gc_attempt s
                = n_propose w + gc_attempt s' + (if gc_QA_passed s' then 1 else 0)
              \<and> gc_attempt s' \<le> max_attempts
              \<and> (gc_QA_passed s' \<longrightarrow> gc_attempt s' < max_attempts)
              \<and> (\<not> gc_QA_passed s' \<longrightarrow> gc_attempt s' = max_attempts)
          | OutOfFuel s' w' \<Rightarrow>
              n_propose w' + gc_attempt s = n_propose w + gc_attempt s' + 1
              \<and> gc_attempt s' < max_attempts)"
  using assms
proof (induction rule: grammar_correction_loop_run_induct)
  case (stop s w)
  then show ?case by auto
next
  case (skip s w conf)
  then show ?case by (auto split: run.splits)
next
  case (cut s w conf s2 w2)
  note f = qa_loop_cut_off_fresh [OF cut.hyps(5)]
  from f cut show ?case by simp
next
  case (accept s w conf s2 w2)
  note f = qa_loop_finished_fresh [OF accept.hyps(5)]
  have "accepted (qa_reply L (n_qa w2 - 1))"
    using f(7) accept.hyps(1,6) by auto
  then have "gc_attempt s2 = gc_attempt s" using f(6) by simp
  with f(2) accept show ?case by simp
next
  case (retry s w conf s2 w2)
  note f = qa_loop_finished_fresh [OF retry.hyps(5)]
  have a2: "gc_attempt s2 = gc_attempt s + 1" and p2: "n_propose w2 = n_propose w + 1"
    using f retry.hyps(1,6) by (auto split: if_splits)
  have "gc_attempt s2 \<le> max_attempts" using a2 retry.hyps(2) by simp
  from retry.IH [OF retry.hyps(6) this] a2 p2
  show ?case by (auto split: run.splits)
qed

section \<open>Result entries\<close>

lemma correct_sentence_run:
  assumes "correct_sentence L sentence w = Inr (e, w')"
  obtains s' where "correction_loop L sentence corr_init w = Inr (s', w')"
    and "prepare_result sentence (length sentence) s' = Inr e"
  using assms
  by (auto simp: correct_sentence_def calculate_sentence_length_def
           split: sum.splits prod.splits)

lemma grammar_correction_sentence_run:
  assumes "grammar_correction_sentence fuel L sentence s w = Inr (Finished (g, s', w'))"
  shows "grammar_correction_loop fuel L sentence (s\<lparr>gc_QA_passed := False, gc_attempt := 0\<rparr>) w
           = Inr (Finished (s', w'))"
    and "store_result sentence s' = Inr g"
  using assms
  by (auto simp: grammar_correction_sentence_def split: sum.splits run.splits prod.splits)

lemma correction_loop_passed_iff:
  assumes "correction_loop L sentence corr_init w = Inr (s', w')"
  shows "QA_passed s' \<longleftrightarrow> last_verdict_accepted L w w'"
proof
  assume "QA_passed s'"
  with correction_loop_passed [OF assms] show "last_verdict_accepted L w w'"
    by (simp add: corr_init_def last_verdict_accepted_def)
next
  assume a: "last_verdict_accepted L w w'"
  then have "n_qa w \<le> n_qa w' - 1" "n_qa w' - 1 < n_qa w'" "accepted (qa_reply L (n_qa w' - 1))"
    by (auto simp: last_verdict_accepted_def)
  from correction_loop_accepted_is_last [OF assms _ this] show "QA_passed s'"
    by (simp add: corr_init_def)
qed

lemma grammar_correction_loop_passed_iff:
  assumes "grammar_correction_loop fuel L sentence (s\<lparr>gc_QA_passed := False, gc_attempt := 0\<rparr>) w
           = Inr (Finished (s', w'))"
  shows "gc_QA_passed s' \<longleftrightarrow> last_verdict_accepted L w w'"
proof
  assume "gc_QA_passed s'"
  with grammar_correction_loop_passed [OF assms refl] show "last_verdict_accepted L w w'"
    by (simp add: last_verdict_accepted_def)
next
  assume a: "last_verdict_accepted L w w'"
  then have "n_qa w \<le> n_qa w' - 1" "n_qa w' - 1 < n_qa w'" "accepted (qa_reply L (n_qa w' - 1))"
    by (auto simp: last_verdict_accepted_def)
  from grammar_correction_loop_accepted_is_last [OF assms refl _ this] show "gc_QA_passed s'"
    by simp
qed









lemma prepare_result_has_changes:
  "prepare_result sentence n s = Inr e \<Longrightarrow> has_changes e \<Longrightarrow> QA_passed s"
  by (auto simp: prepare_result_def split: if_splits)

lemma store_result_has_changes:
  "store_result sentence s = Inr g \<Longrightarrow> has_changes g \<Longrightarrow> gc_QA_passed s"
  by (auto simp: store_result_def Let_def split: option.splits if_splits)


lemma correct_sentence_L_accept:
  "correct_sentence L_accept ''One.'' no_calls =
     Inr (\<lparr>original = ''One.'', final = ''Won.'', has_changes = True,
           qa_concerns = [], length_chars = 4, explanation_text = ''fixed''\<rparr>,
          \<lparr>n_extract = 0, n_verify = 0, n_propose = 1, n_qa = 1\<rparr>)"
  by code_simp

lemma grammar_correction_sentence_L_accept:
  "grammar_correction_sentence 1 L_accept ''One.'' gc_init no_calls =
     Inr (Finished (\<lparr>original = ''One.'', final = ''Won.'', has_changes = True,
                     qa_concerns = []\<rparr>,
          \<lparr>gc_QA_passed = True, gc_attempt = 0,
             gc_correction = Some (proposal ''Won.'' (9/10)),
             gc_qa_result = Some good_verdict, num_attempts = 0, qa_yielded_result = False\<rparr>,
          \<lparr>n_extract = 0, n_verify = 0, n_propose = 1, n_qa = 1\<rparr>))"
  by code_simp


lemma prepare_result_passed:
  assumes "prepare_result sentence n s = Inr e" "QA_passed s"
    and "correction s = Some c"
  shows "corrected_sentence c = Some (final e) \<and> has_changes e = (sentence \<noteq> final e)"
  using assms by (auto simp: prepare_result_def split: option.splits)

lemma store_result_passed:
  assumes "store_result sentence s = Inr g" "gc_QA_passed s"
    and "gc_correction s = Some c"
  shows "corrected_sentence c = Some (final g) \<and> has_changes g = (sentence \<noteq> final g)"
  using assms by (auto simp: store_result_def Let_def split: option.splits)

lemma prepare_result_original: "prepare_result sentence n s = Inr e \<Longrightarrow> original e = sentence"
  by (auto simp: prepare_result_def split: option.splits if_splits)

lemma store_result_original: "store_result sentence s = Inr g \<Longrightarrow> original g = sentence"
  by (auto simp: store_result_def Let_def split: option.splits if_splits)

text \<open>
  Claim C10. The entry of a sentence has \<open>has_changes\<close> exactly when QA passed (the
  last verdict obtained is accepted) and the corrected sentence of the accepted
  proposal, the last one fetched, differs from the original. When QA passed, \<open>final\<close>
  is that corrected sentence; so an accepted correction identical to the original
  gives \<open>has_changes = False\<close> and \<open>final = original\<close>.
\<close>

theorem has_changes_iff_accepted_and_different:
  "(correct_sentence L sentence w = Inr (e, w') \<longrightarrow>
      original e = sentence
      \<and> (has_changes e \<longleftrightarrow>
           last_verdict_accepted L w w'
           \<and> corrected_sentence (propose_reply L (n_propose w' - 1)) \<noteq> Some sentence)
      \<and> (last_verdict_accepted L w w' \<longrightarrow>
           corrected_sentence (propose_reply L (n_propose w' - 1)) = Some (final e))
      \<and> (last_verdict_accepted L w w'
           \<and> corrected_sentence (propose_reply L (n_propose w' - 1)) = Some sentence \<longrightarrow>
           has_changes e = False \<and> final e = original e))
   \<and> (grammar_correction_sentence fuel L sentence s w = Inr (Finished (g, s', w'')) \<longrightarrow>
      original g = sentence
      \<and> (has_changes g \<longleftrightarrow>
           last_verdict_accepted L w w''
           \<and> corrected_sentence (propose_reply L (n_propose w'' - 1)) \<noteq> Some sentence)
      \<and> (last_verdict_accepted L w w'' \<longrightarrow>
           corrected_sentence (propose_reply L (n_propose w'' - 1)) = Some (final g))
      \<and> (last_verdict_accepted L w w''
           \<and> corrected_sentence (propose_reply L (n_propose w'' - 1)) = Some sentence \<longrightarrow>
           has_changes g = False \<and> final g = original g))"
proof (intro conjI impI)
  assume a: "correct_sentence L sentence w = Inr (e, w')"
  then obtain t where run: "correction_loop L sentence corr_init w = Inr (t, w')"
    and res: "prepare_result sentence (length sentence) t = Inr e"
    by (auto elim: correct_sentence_run)
  note iff = correction_loop_passed_iff [OF run]
  have np: "\<not> QA_passed corr_init" by (simp add: corr_init_def)
  show o: "original e = sentence" by (rule prepare_result_original [OF res])
  have acc: "corrected_sentence (propose_reply L (n_propose w' - 1)) = Some (final e)
             \<and> has_changes e = (sentence \<noteq> final e)"
    if "last_verdict_accepted L w w'"
  proof -
    from that iff have p: "QA_passed t" by simp
    from correction_loop_passed [OF run np p]
    have "correction t = Some (propose_reply L (n_propose w' - 1))" by simp
    from prepare_result_passed [OF res p this] show ?thesis .
  qed
  show "has_changes e \<longleftrightarrow>
           last_verdict_accepted L w w'
           \<and> corrected_sentence (propose_reply L (n_propose w' - 1)) \<noteq> Some sentence"
  proof (cases "last_verdict_accepted L w w'")
    case True
    with acc show ?thesis by auto
  next
    case False
    with iff prepare_result_has_changes [OF res] show ?thesis by auto
  qed
  show "corrected_sentence (propose_reply L (n_propose w' - 1)) = Some (final e)"
    if "last_verdict_accepted L w w'"
    using acc that by simp
  show "has_changes e = False" "final e = original e"
    if "last_verdict_accepted L w w'
           \<and> corrected_sentence (propose_reply L (n_propose w' - 1)) = Some sentence"
    using acc that o by auto
next
  assume a: "grammar_correction_sentence fuel L sentence s w = Inr (Finished (g, s', w''))"
  note run = grammar_correction_sentence_run [OF a]
  note iff = grammar_correction_loop_passed_iff [OF run(1)]
  show o: "original g = sentence" by (rule store_result_original [OF run(2)])
  have acc: "corrected_sentence (propose_reply L (n_propose w'' - 1)) = Some (final g)
             \<and> has_changes g = (sentence \<noteq> final g)"
    if "last_verdict_accepted L w w''"
  proof -
    from that iff have p: "gc_QA_passed s'" by simp
    from grammar_correction_loop_passed [OF run(1) refl _ p]
    have "gc_correction s' = Some (propose_reply L (n_propose w'' - 1))" by simp
    from store_result_passed [OF run(2) p this] show ?thesis .
  qed
  show "has_changes g \<longleftrightarrow>
           last_verdict_accepted L w w''
           \<and> corrected_sentence (propose_reply L (n_propose w'' - 1)) \<noteq> Some sentence"
  proof (cases "last_verdict_accepted L w w''")
    case True
    with acc show ?thesis by auto
  next
    case False
    with iff store_result_has_changes [OF run(2)] show ?thesis by auto
  qed
  show "corrected_sentence (propose_reply L (n_propose w'' - 1)) = Some (final g)"
    if "last_verdict_accepted L w w''"
    using acc that by simp
  show "has_changes g = False" "final g = original g"
    if "last_verdict_accepted L w w''
           \<and> corrected_sentence (propose_reply L (n_propose w'' - 1)) = Some sentence"
    using acc that o by auto
qed

lemma correct_sentence_L_same:
  "correct_sentence L_same ''One.'' no_calls =
     Inr (\<lparr>original = ''One.'', final = ''One.'', has_changes = False,
           qa_concerns = [], length_chars = 4, explanation_text = ''fixed''\<rparr>,
          \<lparr>n_extract = 0, n_verify = 0, n_propose = 1, n_qa = 1\<rparr>)"
  by code_simp

lemma grammar_correction_sentence_L_same:
  "grammar_correction_sentence 1 L_same ''One.'' gc_init no_calls =
     Inr (Finished (\<lparr>original = ''One.'', final = ''One.'', has_changes = False,
                     qa_concerns = []\<rparr>,
          \<lparr>gc_QA_passed = True, gc_attempt = 0,
             gc_correction = Some (proposal ''One.'' (9/10)),
             gc_qa_result = Some good_verdict, num_attempts = 0, qa_yielded_result = False\<rparr>,
          \<lparr>n_extract = 0, n_verify = 0, n_propose = 1, n_qa = 1\<rparr>))"
  by code_simp

theorem has_changes_iff_accepted_and_different_witness:
  "last_verdict_accepted L_same no_calls \<lparr>n_extract = 0, n_verify = 0, n_propose = 1, n_qa = 1\<rparr>
   \<and> corrected_sentence (propose_reply L_same 0) = Some ''One.''
   \<and> corrected_sentence (propose_reply L_accept 0) = Some ''Won.''"
proof -
  have la: "last_verdict_accepted L_same no_calls
              \<lparr>n_extract = 0, n_verify = 0, n_propose = 1, n_qa = 1\<rparr>"
    by (simp add: last_verdict_accepted_def accepted_def L_same_def L_demo_def good_verdict_def
          no_calls_def)
  have 1: "corrected_sentence (propose_reply L_same 0) = Some ''One.''"
    using has_changes_iff_accepted_and_different
            [THEN conjunct1, THEN mp, OF correct_sentence_L_same] la
    by simp
  have lb: "last_verdict_accepted L_accept no_calls
              \<lparr>n_extract = 0, n_verify = 0, n_propose = 1, n_qa = 1\<rparr>"
    by (simp add: last_verdict_accepted_def accepted_def L_accept_def L_demo_def good_verdict_def
          no_calls_def)
  have 2: "corrected_sentence (propose_reply L_accept 0) = Some ''Won.''"
    using has_changes_iff_accepted_and_different
            [THEN conjunct2, THEN mp, OF grammar_correction_sentence_L_accept] lb
    by simp
  from la 1 2 show ?thesis by blast
qed

section \<open>Budgets\<close>

text \<open>
  Claim C4, as stated: at most 5 proposals are fetched for a sentence before the
  fallback. In \<open>process_sentence\<close> the budget is \<open>max_correction_attempts = 8\<close>: with a
  proposer that is never confident, 8 proposals are fetched and then the fallback is
  taken.
\<close>

theorem process_sentence_fetches_eight_proposals:
  "correct_sentence L_demo ''One.'' no_calls =
     Inr (\<lparr>original = ''One.'', final = ''One.'', has_changes = False,
           qa_concerns = [''Failed to find valid correction''], length_chars = 4,
           explanation_text = ''''\<rparr>,
          \<lparr>n_extract = 0, n_verify = 0, n_propose = 8, n_qa = 0\<rparr>)"
  by code_simp

text \<open>
  Claim C4, amended. The outer correction loop fetches at most 8 proposals for a
  sentence in \<open>process_sentence\<close> and at most 5 in \<open>grammar_correction_main\<close>, and it
  gives up, QA not passed, after exactly that many.
\<close>

theorem proposals_bounded_by_attempt_budget:
  "(correction_loop L sentence corr_init w = Inr (t, w') \<longrightarrow>
      n_propose w' \<le> n_propose w + 8
      \<and> (\<not> QA_passed t \<longrightarrow> n_propose w' = n_propose w + 8))
   \<and> (grammar_correction_loop fuel L sentence (s\<lparr>gc_QA_passed := False, gc_attempt := 0\<rparr>) w
        = Inr r \<longrightarrow>
      (case r of
         Finished (s', w'') \<Rightarrow>
           n_propose w'' \<le> n_propose w + 5
           \<and> (\<not> gc_QA_passed s' \<longrightarrow> n_propose w'' = n_propose w + 5)
       | OutOfFuel s' w'' \<Rightarrow> n_propose w'' \<le> n_propose w + 5))"
proof (intro conjI impI)
  assume run: "correction_loop L sentence corr_init w = Inr (t, w')"
  have "\<not> QA_passed corr_init" "correction_attempt corr_init \<le> max_correction_attempts"
    by (simp_all add: corr_init_def)
  note c = correction_loop_count [OF run this]
  from c show "n_propose w' \<le> n_propose w + 8"
    by (auto simp: corr_init_def max_correction_attempts_def split: if_splits)
  from c show "n_propose w' = n_propose w + 8" if "\<not> QA_passed t"
    using that by (auto simp: corr_init_def max_correction_attempts_def split: if_splits)
next
  assume run: "grammar_correction_loop fuel L sentence
                 (s\<lparr>gc_QA_passed := False, gc_attempt := 0\<rparr>) w = Inr r"
  from grammar_correction_loop_count [OF run]
  show "case r of
         Finished (s', w'') \<Rightarrow>
           n_propose w'' \<le> n_propose w + 5
           \<and> (\<not> gc_QA_passed s' \<longrightarrow> n_propose w'' = n_propose w + 5)
       | OutOfFuel s' w'' \<Rightarrow> n_propose w'' \<le> n_propose w + 5"
    by (auto simp: max_attempts_def split: run.splits if_splits)
qed

lemma correction_loop_L_demo:
  "correction_loop L_demo ''One.'' corr_init no_calls =
     Inr (\<lparr>QA_passed = False, correction_attempt = 8,
           correction = Some (proposal ''One.'' (3/10)), qa_result = None\<rparr>,
          \<lparr>n_extract = 0, n_verify = 0, n_propose = 8, n_qa = 0\<rparr>)"
  by code_simp

lemma grammar_correction_loop_L_demo:
  "grammar_correction_loop 1 L_demo ''One.'' (gc_init\<lparr>gc_QA_passed := False, gc_attempt := 0\<rparr>)
     no_calls =
     Inr (Finished (\<lparr>gc_QA_passed = False, gc_attempt = 5,
                     gc_correction = Some (proposal ''One.'' (3/10)), gc_qa_result = None,
                     num_attempts = 0, qa_yielded_result = False\<rparr>,
          \<lparr>n_extract = 0, n_verify = 0, n_propose = 5, n_qa = 0\<rparr>))"
  by code_simp

theorem proposals_bounded_by_attempt_budget_witness:
  "n_propose \<lparr>n_extract = 0, n_verify = 0, n_propose = 8, n_qa = 0\<rparr> = n_propose no_calls + 8
   \<and> n_propose \<lparr>n_extract = 0, n_verify = 0, n_propose = 5, n_qa = 0\<rparr> = n_propose no_calls + 5"
proof -
  have 1: "n_propose \<lparr>n_extract = 0, n_verify = 0, n_propose = 8, n_qa = 0\<rparr>
             = n_propose no_calls + 8"
    using proposals_bounded_by_attempt_budget
            [THEN conjunct1, THEN mp, OF correction_loop_L_demo, THEN conjunct2]
    by simp
  have 2: "n_propose \<lparr>n_extract = 0, n_verify = 0, n_propose = 5, n_qa = 0\<rparr>
             = n_propose no_calls + 5"
    using proposals_bounded_by_attempt_budget
            [THEN conjunct2, THEN mp, OF grammar_correction_loop_L_demo]
    by simp
  from 1 2 show ?thesis by blast
qed

text \<open>Verdicts without \<open>is_valid\<close> keep the inner loop going for as long as there is fuel.\<close>

lemma qa_loop_missing_fields:
  assumes "\<And>i. is_valid (qa_reply L i) = None"
    and "num_attempts s < max_qa_attempts" "\<not> qa_yielded_result s"
    and "gc_correction s = Some c" "corrected_sentence c = Some cs"
  shows "\<exists>s'. qa_loop fuel L original_sentence s w
                = Inr (OutOfFuel s' (w\<lparr>n_qa := n_qa w + fuel\<rparr>))"
  using assms(2-)
proof (induction fuel arbitrary: s w)
  case 0
  then show ?case by simp
next
  case (Suc fuel)
  define s1 where "s1 = s\<lparr>gc_qa_result := Some (qa_reply L (n_qa w))\<rparr>"
  define w1 where "w1 = w\<lparr>n_qa := n_qa w + 1\<rparr>"
  have step: "qa_loop (Suc fuel) L original_sentence s w = qa_loop fuel L original_sentence s1 w1"
    using Suc.prems assms(1) by (simp add: Let_def s1_def w1_def)
  have "\<exists>s'. qa_loop fuel L original_sentence s1 w1
                = Inr (OutOfFuel s' (w1\<lparr>n_qa := n_qa w1 + fuel\<rparr>))"
    by (rule Suc.IH) (use Suc.prems in \<open>simp_all add: s1_def\<close>)
  moreover have "w1\<lparr>n_qa := n_qa w1 + fuel\<rparr> = w\<lparr>n_qa := n_qa w + Suc fuel\<rparr>"
    by (simp add: w1_def)
  ultimately show ?case using step by simp
qed

text \<open>
  Claim C3. The inner QA loop of \<open>grammar_correction_main\<close> tests
  \<open>num_attempts < max_qa_attempts\<close> and never changes \<open>num_attempts\<close>. While the verdicts
  lack a required field nothing ends it: for one proposal, whatever the fuel, every
  unit of it is spent on a call of the validator and the loop has not returned.
\<close>

theorem inner_qa_loop_unbounded_on_missing_fields:
  "\<exists>s'. grammar_correction_sentence fuel L_stuck ''One.'' gc_init no_calls
          = Inr (OutOfFuel s' \<lparr>n_extract = 0, n_verify = 0, n_propose = 1, n_qa = fuel\<rparr>)"
proof -
  define s0 where "s0 = gc_init\<lparr>gc_QA_passed := False, gc_attempt := 0\<rparr>"
  define s1 where "s1 = s0\<lparr>gc_correction := Some (propose_reply L_stuck (n_propose no_calls)),
                           num_attempts := 0, qa_yielded_result := False\<rparr>"
  define w1 where "w1 = no_calls\<lparr>n_propose := n_propose no_calls + 1\<rparr>"
  have p: "propose_reply L_stuck (n_propose no_calls) = proposal ''Won.'' (9/10)"
    by (simp add: L_stuck_def L_demo_def)
  have "\<exists>s'. qa_loop fuel L_stuck ''One.'' s1 w1
               = Inr (OutOfFuel s' (w1\<lparr>n_qa := n_qa w1 + fuel\<rparr>))"
  proof (rule qa_loop_missing_fields)
    show "\<And>i. is_valid (qa_reply L_stuck i) = None"
      by (simp add: L_stuck_def L_demo_def empty_verdict_def)
    show "gc_correction s1 = Some (proposal ''Won.'' (9/10))" by (simp add: s1_def p)
    show "corrected_sentence (proposal ''Won.'' (9/10)) = Some ''Won.''"
      by (simp add: proposal_def)
  qed (simp_all add: s1_def max_qa_attempts_def)
  then obtain s' where
    q: "qa_loop fuel L_stuck ''One.'' s1 w1 = Inr (OutOfFuel s' (w1\<lparr>n_qa := n_qa w1 + fuel\<rparr>))"
    by blast
  have "grammar_correction_loop fuel L_stuck ''One.'' s0 no_calls
          = Inr (OutOfFuel s' (w1\<lparr>n_qa := n_qa w1 + fuel\<rparr>))"
    using grammar_correction_loop_qa
            [where s = s0 and w = no_calls and L = L_stuck and conf = "9/10" and fuel = fuel
               and original_sentence = "''One.''"] q
    by (simp add: s0_def gc_init_def max_attempts_def p proposal_def s1_def w1_def)
  moreover have "w1\<lparr>n_qa := n_qa w1 + fuel\<rparr>
                   = \<lparr>n_extract = 0, n_verify = 0, n_propose = 1, n_qa = fuel\<rparr>"
    by (simp add: w1_def no_calls_def)
  ultimately show ?thesis
    by (simp add: grammar_correction_sentence_def s0_def)
qed

text \<open>
  Claim C5. A proposal without the \<open>confidence\<close> key is a spent attempt in
  \<open>process_sentence\<close>, which tests for the key, but \<open>grammar_correction_main\<close> reads
  \<open>correction["confidence"]\<close> without the test and raises \<open>KeyError\<close>.
\<close>

theorem missing_confidence_raises_in_grammar_correction_main:
  "grammar_correction_sentence fuel L_no_confidence ''One.'' gc_init no_calls = Inl KeyError"
proof -
  have "grammar_correction_loop fuel L_no_confidence ''One.''
          (gc_init\<lparr>gc_QA_passed := False, gc_attempt := 0\<rparr>) no_calls = Inl KeyError"
    by (rule grammar_correction_loop_KeyError)
       (simp_all add: max_attempts_def L_no_confidence_def L_demo_def)
  then show ?thesis by (simp add: grammar_correction_sentence_def)
qed

lemma missing_confidence_is_spent_attempt_in_process_sentence:
  "correct_sentence L_no_confidence ''One.'' no_calls =
     Inr (\<lparr>original = ''One.'', final = ''One.'', has_changes = False,
           qa_concerns = [''Failed to find valid correction''], length_chars = 4,
           explanation_text = ''''\<rparr>,
          \<lparr>n_extract = 0, n_verify = 0, n_propose = 8, n_qa = 0\<rparr>)"
  by code_simp

section \<open>The document drivers\<close>

lemma segmentation_loop_invariant:
  assumes run: "segmentation_loop L document s w = Inr (s', w')"
    and init: "I s"
    and step: "\<And>(s :: seg_state) (w :: calls) sentence end_index.
                 I s \<Longrightarrow> seg_attempt s < max_attempts \<Longrightarrow>
                 extract_sentence_from_queue document (initial_sentence_length_upper_bound s)
                   (extract_reply L (n_extract w)) = Inr (sentence, end_index) \<Longrightarrow>
                 I (s\<lparr>seg_sentence := Some sentence, seg_end_index := Some end_index,
                      seg_verification := verify_reply L (n_verify w),
                      seg_attempt := seg_attempt s + 1,
                      initial_sentence_length_upper_bound :=
                        initial_sentence_length_upper_bound s + 200\<rparr>)"
  shows "I s'"
  using run init
proof (induction "max_attempts - seg_attempt s" arbitrary: s w rule: less_induct)
  case less
  from less.prems(1) obtain ok where ok: "v_is_valid (seg_verification s) = Some ok"
    by (subst (asm) segmentation_loop.simps) (auto split: option.splits)
  show ?case
  proof (cases "ok \<or> max_attempts \<le> seg_attempt s")
    case True
    from segmentation_loop_stop [OF ok True, of L document w] less.prems show ?thesis by simp
  next
    case False
    then have nok: "v_is_valid (seg_verification s) = Some False"
      and lt: "seg_attempt s < max_attempts"
      using ok by auto
    from less.prems(1) nok lt obtain sentence end_index where
      e: "extract_sentence_from_queue document (initial_sentence_length_upper_bound s)
            (extract_reply L (n_extract w)) = Inr (sentence, end_index)"
      by (subst (asm) segmentation_loop.simps) (auto split: sum.splits)
    note st = segmentation_loop_step [OF nok lt e]
    show ?thesis
    proof (rule less.hyps)
      show "segmentation_loop L document
              (s\<lparr>seg_sentence := Some sentence, seg_end_index := Some end_index,
                 seg_verification := verify_reply L (n_verify w),
                 seg_attempt := seg_attempt s + 1,
                 initial_sentence_length_upper_bound :=
                   initial_sentence_length_upper_bound s + 200\<rparr>)
              (w\<lparr>n_extract := n_extract w + 1, n_verify := n_verify w + 1\<rparr>) = Inr (s', w')"
        using st less.prems(1) by simp
      show "I (s\<lparr>seg_sentence := Some sentence, seg_end_index := Some end_index,
                 seg_verification := verify_reply L (n_verify w),
                 seg_attempt := seg_attempt s + 1,
                 initial_sentence_length_upper_bound :=
                   initial_sentence_length_upper_bound s + 200\<rparr>)"
        by (rule step [OF less.prems(2) lt e])
    qed (use lt in simp)
  qed
qed

lemma segment_run:
  assumes "segment L document w = Inr (sentence, end_index, sg, w')"
  shows "segmentation_loop L document seg_init w = Inr (sg, w')"
    and "seg_end_index sg = Some end_index"
  using assms
  by (auto simp: segment_def split: sum.splits option.splits prod.splits)

lemma segment_end_index_le:
  assumes "segment L document w = Inr (sentence, end_index, sg, w')"
  shows "end_index \<le> length document"
proof -
  note run = segment_run [OF assms]
  have "\<forall>ei. seg_end_index sg = Some ei \<longrightarrow> ei \<le> length document"
    by (rule segmentation_loop_invariant [OF run(1)])
       (auto simp: seg_init_def dest: extract_end_index_le)
  with run(2) show ?thesis by simp
qed

lemma segment_end_index_pos:
  assumes "segment L document w = Inr (sentence, end_index, sg, w')"
    and "never_blank L" "document \<noteq> []"
  shows "1 \<le> end_index"
proof -
  note run = segment_run [OF assms(1)]
  have "0 < initial_sentence_length_upper_bound sg
        \<and> (\<forall>ei. seg_end_index sg = Some ei \<longrightarrow> 1 \<le> ei)"
  proof (rule segmentation_loop_invariant [OF run(1)])
    show "0 < initial_sentence_length_upper_bound seg_init
          \<and> (\<forall>ei. seg_end_index seg_init = Some ei \<longrightarrow> 1 \<le> ei)"
      by (simp add: seg_init_def)
  next
    fix s :: seg_state and w :: calls and sentence end_index
    assume i: "0 < initial_sentence_length_upper_bound s
               \<and> (\<forall>ei. seg_end_index s = Some ei \<longrightarrow> 1 \<le> ei)"
      and e: "extract_sentence_from_queue document (initial_sentence_length_upper_bound s)
                (extract_reply L (n_extract w)) = Inr (sentence, end_index)"
    from assms(2) obtain content where
      c: "extract_reply L (n_extract w) = Some content" "strip content \<noteq> []"
      by (auto simp: never_blank_def)
    have "1 \<le> end_index"
    proof (rule extract_end_index_pos [OF assms(3) _ c(2)])
      show "0 < initial_sentence_length_upper_bound s" using i by simp
      show "extract_sentence_from_queue document (initial_sentence_length_upper_bound s)
              (Some content) = Inr (sentence, end_index)"
        using e c(1) by simp
    qed
    then show "0 < initial_sentence_length_upper_bound
                 (s\<lparr>seg_sentence := Some sentence, seg_end_index := Some end_index,
                    seg_verification := verify_reply L (n_verify w),
                    seg_attempt := seg_attempt s + 1,
                    initial_sentence_length_upper_bound :=
                      initial_sentence_length_upper_bound s + 200\<rparr>)
          \<and> (\<forall>ei. seg_end_index
                 (s\<lparr>seg_sentence := Some sentence, seg_end_index := Some end_index,
                    seg_verification := verify_reply L (n_verify w),
                    seg_attempt := seg_attempt s + 1,
                    initial_sentence_length_upper_bound :=
                      initial_sentence_length_upper_bound s + 200\<rparr>) = Some ei \<longrightarrow> 1 \<le> ei)"
      by simp
  qed
  with run(2) show ?thesis by simp
qed

lemma process_sentence_run:
  assumes "process_sentence L document w = Inr (result, document', chars_consumed, w')"
  shows "\<exists>sentence sg w1. segment L document w = Inr (sentence, chars_consumed, sg, w1)"
    and "document' = drop chars_consumed document"
  using assms
  by (auto simp: process_sentence_def split: sum.splits prod.splits)

lemma strip_Nil [simp]: "strip [] = []"
  by (simp add: strip_def)

lemma main_loop_step:
  "main_loop L document sentence_count chars_processed results w = Some y \<Longrightarrow>
   strip document \<noteq> [] \<Longrightarrow>
   process_sentence L document w = Inr (result, document', chars_consumed, w1) \<Longrightarrow>
   main_loop L document' (sentence_count + 1) (chars_processed + chars_consumed)
     (results @ [result]) w1 = Some y"
  by (subst (asm) main_loop.simps) simp

lemma main_loop_stop:
  "strip document = [] \<Longrightarrow>
   main_loop L document sentence_count chars_processed results w
     = Some (Inr (results, sentence_count, chars_processed, document, w))"
  by (subst main_loop.simps) simp

lemma run_covers_stop:
  "strip document = [] \<Longrightarrow>
   run_covers document sentence_count chars_processed (length results)
     (Inr (results, sentence_count, chars_processed, document, w))"
  by (simp add: run_covers_def)

lemma run_covers_step:
  assumes "run_covers (drop chars_consumed document) (sentence_count + 1)
             (chars_processed + chars_consumed) (Suc n) y"
    and "chars_consumed \<le> length document"
  shows "run_covers document sentence_count chars_processed n y"
proof (cases y)
  case (Inl e)
  then show ?thesis by (simp add: run_covers_def)
next
  case (Inr p)
  obtain results' sentence_count' chars_processed' rest w' where
    p: "p = (results', sentence_count', chars_processed', rest, w')"
    by (cases p) auto
  have all: "chars_processed + chars_consumed \<le> chars_processed'
      \<and> chars_processed' - (chars_processed + chars_consumed)
              \<le> length (drop chars_consumed document)
      \<and> rest = drop (chars_processed' - (chars_processed + chars_consumed))
                     (drop chars_consumed document)
      \<and> strip rest = []
      \<and> length results' + (sentence_count + 1) = Suc n + sentence_count'"
    using assms(1) unfolding Inr p run_covers_def sum.case prod.case .
  from all have a: "chars_processed + chars_consumed \<le> chars_processed'" by blast
  from all have b: "chars_processed' - (chars_processed + chars_consumed)
              \<le> length (drop chars_consumed document)" by blast
  from all have c: "rest = drop (chars_processed' - (chars_processed + chars_consumed))
                     (drop chars_consumed document)" by blast
  from all have d: "strip rest = []" by blast
  from all have n: "length results' + (sentence_count + 1) = Suc n + sentence_count'" by blast
  have e: "chars_processed' - (chars_processed + chars_consumed) + chars_consumed
             = chars_processed' - chars_processed"
    using a by arith
  have 1: "chars_processed \<le> chars_processed'" using a by arith
  have 2: "chars_processed' - chars_processed \<le> length document"
    using a b assms(2) by simp
  have 3: "rest = drop (chars_processed' - chars_processed) document"
    unfolding c drop_drop e ..
  have 4: "length results' + sentence_count = n + sentence_count'"
    using n by simp
  from 1 2 3 d 4 show ?thesis
    unfolding Inr p run_covers_def sum.case prod.case by (intro conjI)
qed

lemma main_loop_covers:
  assumes "main_loop L document sentence_count chars_processed results w = Some y"
  shows "run_covers document sentence_count chars_processed (length results) y"
proof (rule main_loop.raw_induct
         [where P = "\<lambda>L document sentence_count chars_processed results w y.
                       run_covers document sentence_count chars_processed (length results) y",
          OF _ assms])
  fix loop :: "llm \<Rightarrow> string \<Rightarrow> nat \<Rightarrow> nat \<Rightarrow> result_entry list \<Rightarrow> calls
                 \<Rightarrow> (error + (result_entry list \<times> nat \<times> nat \<times> string \<times> calls)) option"
    and L :: llm and document :: string and sentence_count chars_processed :: nat
    and results :: "result_entry list" and w :: calls
    and y :: "error + (result_entry list \<times> nat \<times> nat \<times> string \<times> calls)"
  assume ih: "\<And>L document sentence_count chars_processed results w y.
                loop L document sentence_count chars_processed results w = Some y \<Longrightarrow>
                run_covers document sentence_count chars_processed (length results) y"
    and body: "(if strip document \<noteq> [] then
                  (case process_sentence L document w of
                     Inl e \<Rightarrow> Some (Inl e)
                   | Inr (result, document', chars_consumed, w') \<Rightarrow>
                       loop L document' (sentence_count + 1) (chars_processed + chars_consumed)
                         (results @ [result]) w')
                else Some (Inr (results, sentence_count, chars_processed, document, w)))
               = Some y"
  show "run_covers document sentence_count chars_processed (length results) y"
  proof (cases "strip document \<noteq> []")
    case False
    with body have "y = Inr (results, sentence_count, chars_processed, document, w)" by simp
    with False show ?thesis by (simp add: run_covers_stop)
  next
    case True
    show ?thesis
    proof (cases "process_sentence L document w")
      case (Inl e)
      with True body have "y = Inl e" by simp
      then show ?thesis by (simp add: run_covers_def)
    next
      case (Inr p)
      obtain result document' chars_consumed w1 where
        p: "p = (result, document', chars_consumed, w1)" by (cases p)
      note ps = process_sentence_run [OF Inr [unfolded p]]
      from ps(1) have le: "chars_consumed \<le> length document"
        by (auto dest: segment_end_index_le)
      from True Inr p body
      have "loop L document' (sentence_count + 1) (chars_processed + chars_consumed)
              (results @ [result]) w1 = Some y"
        by simp
      from ih [OF this]
      have "run_covers (drop chars_consumed document) (sentence_count + 1)
              (chars_processed + chars_consumed) (Suc (length results)) y"
        by (simp add: ps(2))
      from run_covers_step [OF this le] show ?thesis .
    qed
  qed
qed

lemma main_loop_terminates:
  assumes "never_blank L"
  shows "\<exists>y. main_loop L document sentence_count chars_processed results w = Some y"
proof (induction "length document"
         arbitrary: document sentence_count chars_processed results w rule: less_induct)
  case less
  show ?case
  proof (cases "strip document \<noteq> []")
    case False
    then show ?thesis by (subst main_loop.simps) simp
  next
    case True
    then have ne: "document \<noteq> []" by auto
    show ?thesis
    proof (cases "process_sentence L document w")
      case (Inl e)
      with True show ?thesis by (subst main_loop.simps) simp
    next
      case (Inr p)
      obtain result document' chars_consumed w1 where
        p: "p = (result, document', chars_consumed, w1)" by (cases p)
      note ps = process_sentence_run [OF Inr [unfolded p]]
      from ps(1) assms ne have "1 \<le> chars_consumed"
        by (auto dest: segment_end_index_pos)
      with ne have "length document' < length document"
        by (simp add: ps(2))
      from less.hyps [OF this]
      obtain y where "main_loop L document' (sentence_count + 1)
                        (chars_processed + chars_consumed) (results @ [result]) w1 = Some y"
        by blast
      with True Inr p show ?thesis by (subst main_loop.simps) simp
    qed
  qed
qed

lemma rest_is_suffix_step:
  assumes "rest_is_suffix (drop end_index document) y" "end_index \<le> length document"
  shows "rest_is_suffix document y"
proof (cases y)
  case (Inl e)
  then show ?thesis by (simp add: rest_is_suffix_def)
next
  case (Inr p)
  obtain results' rest w' where p: "p = (results', rest, w')" by (cases p)
  from assms(1) obtain n where
    n: "n \<le> length (drop end_index document)" "rest = drop n (drop end_index document)"
    and s: "length (strip rest) < 3"
    unfolding Inr p rest_is_suffix_def sum.case prod.case by blast
  have "n + end_index \<le> length document" using n(1) assms(2) by simp
  moreover have "rest = drop (n + end_index) document" unfolding n(2) drop_drop ..
  ultimately have "\<exists>m. m \<le> length document \<and> rest = drop m document" by blast
  with s show ?thesis
    unfolding Inr p rest_is_suffix_def sum.case prod.case by (intro conjI)
qed

lemma preprocessing_loop_suffix:
  assumes "preprocessing_loop L document results w = Some y"
  shows "rest_is_suffix document y"
proof (rule preprocessing_loop.raw_induct
         [where P = "\<lambda>L document results w y. rest_is_suffix document y", OF _ assms])
  fix loop :: "llm \<Rightarrow> string \<Rightarrow> (string \<times> nat) list \<Rightarrow> calls
                 \<Rightarrow> (error + ((string \<times> nat) list \<times> string \<times> calls)) option"
    and L :: llm and document :: string and results :: "(string \<times> nat) list" and w :: calls
    and y :: "error + ((string \<times> nat) list \<times> string \<times> calls)"
  assume ih: "\<And>L document results w y.
                loop L document results w = Some y \<Longrightarrow> rest_is_suffix document y"
    and body: "(if strip document \<noteq> [] then
                 (case segment L document w of
                    Inl e \<Rightarrow> Some (Inl e)
                  | Inr (sentence, end_index, sg, w') \<Rightarrow>
                      (let lengths = calculate_sentence_length sentence;
                           results' = results @ [(sentence, lengths)];
                           document' = drop end_index document
                       in if length (strip document') < 3
                          then Some (Inr (results', document', w'))
                          else loop L document' results' w'))
               else Some (Inr (results, document, w))) = Some y"
  show "rest_is_suffix document y"
  proof (cases "strip document \<noteq> []")
    case False
    with body have y: "y = Inr (results, document, w)" by simp
    have "\<exists>n. n \<le> length document \<and> document = drop n document"
      by (rule exI [of _ 0]) simp
    with False show ?thesis by (simp add: y rest_is_suffix_def)
  next
    case True
    show ?thesis
    proof (cases "segment L document w")
      case (Inl e)
      with True body have "y = Inl e" by simp
      then show ?thesis by (simp add: rest_is_suffix_def)
    next
      case (Inr p)
      obtain sentence end_index sg w1 where p: "p = (sentence, end_index, sg, w1)"
        by (cases p)
      have le: "end_index \<le> length document"
        by (rule segment_end_index_le [OF Inr [unfolded p]])
      show ?thesis
      proof (cases "length (strip (drop end_index document)) < 3")
        case short: True
        with True Inr p body
        have y: "y = Inr (results @ [(sentence, calculate_sentence_length sentence)],
                          drop end_index document, w1)"
          by (simp add: Let_def)
        have "\<exists>n. n \<le> length document \<and> drop end_index document = drop n document"
          using le by blast
        with short show ?thesis by (simp add: y rest_is_suffix_def)
      next
        case False
        with True Inr p body
        have "loop L (drop end_index document)
                (results @ [(sentence, calculate_sentence_length sentence)]) w1 = Some y"
          by (simp add: Let_def)
        from rest_is_suffix_step [OF ih [OF this] le] show ?thesis .
      qed
    qed
  qed
qed

text \<open>
  Claim C2, as stated: the consumed end indices add up to the length of the original
  document. The driver stops as soon as what is left is blank, so a trailing blank is
  never consumed: on \<open>One.\<close> followed by a space, 4 of the 5 characters are consumed.
\<close>

theorem main_leaves_trailing_blank_unconsumed:
  "main L_accept ''One. '' =
     Some (Inr ([\<lparr>original = ''One.'', final = ''Won.'', has_changes = True,
                 qa_concerns = [], length_chars = 4, explanation_text = ''fixed''\<rparr>],
                1, 4, '' '', \<lparr>n_extract = 1, n_verify = 1, n_propose = 1, n_qa = 1\<rparr>))
   \<and> length ''One. '' = 5"
  by code_simp

text \<open>
  Claim C2, amended. Every step of the driver advances the document by exactly the
  end index that segmentation returned, which is at most the length of the document.
  When the run of \<open>main\<close> finishes, the consumed end indices and the length of what is
  left add up to the length of the original document, what is left is the original
  without its first \<open>chars_processed\<close> characters, and it is blank; there is one entry
  per step. The run finishes whenever the extractor never answers with a blank text.
  \<open>preprocessing_main\<close> leaves a suffix of the document as well, of fewer than 3
  characters once stripped.
\<close>

theorem driver_covers_document:
  "(process_sentence L document w = Inr (result, document', chars_consumed, w') \<longrightarrow>
      (\<exists>sentence sg w1. segment L document w = Inr (sentence, chars_consumed, sg, w1))
      \<and> document' = drop chars_consumed document \<and> chars_consumed \<le> length document)
   \<and> (main L document = Some (Inr (results, sentence_count, chars_processed, rest, w_end)) \<longrightarrow>
      chars_processed + length rest = length document
      \<and> rest = drop chars_processed document \<and> strip rest = []
      \<and> length results = sentence_count)
   \<and> (never_blank L \<longrightarrow> (\<exists>y. main L document = Some y))
   \<and> (preprocessing_main L document = Some (Inr (sentences, rest', w_end')) \<longrightarrow>
      (\<exists>n. n \<le> length document \<and> rest' = drop n document) \<and> length (strip rest') < 3)"
proof (intro conjI impI)
  assume a: "process_sentence L document w = Inr (result, document', chars_consumed, w')"
  note ps = process_sentence_run [OF a]
  show "\<exists>sentence sg w1. segment L document w = Inr (sentence, chars_consumed, sg, w1)"
    by (rule ps(1))
  show "document' = drop chars_consumed document" by (rule ps(2))
  from ps(1) show "chars_consumed \<le> length document"
    by (auto dest: segment_end_index_le)
next
  assume a: "main L document = Some (Inr (results, sentence_count, chars_processed, rest, w_end))"
  then have "run_covers document 0 0 (length ([] :: result_entry list))
               (Inr (results, sentence_count, chars_processed, rest, w_end))"
    unfolding main_def by (rule main_loop_covers)
  then have "chars_processed \<le> length document \<and> rest = drop chars_processed document
             \<and> strip rest = [] \<and> length results = sentence_count"
    unfolding run_covers_def sum.case prod.case by auto
  then have c: "chars_processed \<le> length document" "rest = drop chars_processed document"
    "strip rest = []" "length results = sentence_count"
    by blast+
  show "rest = drop chars_processed document" "strip rest = []"
    "length results = sentence_count"
    by (rule c)+
  show "chars_processed + length rest = length document"
    using c(1) by (simp add: c(2))
next
  assume "never_blank L"
  then show "\<exists>y. main L document = Some y"
    unfolding main_def by (rule main_loop_terminates)
next
  assume a: "preprocessing_main L document = Some (Inr (sentences, rest', w_end'))"
  then have "rest_is_suffix document (Inr (sentences, rest', w_end'))"
    unfolding preprocessing_main_def by (rule preprocessing_loop_suffix)
  then have "(\<exists>n. n \<le> length document \<and> rest' = drop n document)
             \<and> length (strip rest') < 3"
    unfolding rest_is_suffix_def sum.case prod.case .
  then show "\<exists>n. n \<le> length document \<and> rest' = drop n document"
    and "length (strip rest') < 3"
    by blast+
qed

lemma main_L_accept:
  "main L_accept ''One. '' =
     Some (Inr ([\<lparr>original = ''One.'', final = ''Won.'', has_changes = True,
                 qa_concerns = [], length_chars = 4, explanation_text = ''fixed''\<rparr>],
                1, 4, '' '', \<lparr>n_extract = 1, n_verify = 1, n_propose = 1, n_qa = 1\<rparr>))"
  by code_simp

lemma never_blank_L_accept: "never_blank L_accept"
  by (simp add: never_blank_def L_accept_def L_demo_def strip_def isspace_def)

theorem driver_covers_document_witness:
  "4 + length '' '' = length ''One. '' \<and> '' '' = drop 4 ''One. '' \<and> strip '' '' = []
   \<and> never_blank L_accept"
proof -
  have "4 + length '' '' = length ''One. '' \<and> '' '' = drop 4 ''One. '' \<and> strip '' '' = []"
    using driver_covers_document [THEN conjunct2, THEN conjunct1, THEN mp, OF main_L_accept]
    by blast
  moreover have "\<exists>y. main L_accept ''One. '' = Some y"
    using driver_covers_document
            [THEN conjunct2, THEN conjunct2, THEN conjunct1, THEN mp, OF never_blank_L_accept]
    by blast
  ultimately show ?thesis using never_blank_L_accept by blast
qed

section \<open>Results and progress\<close>

text \<open>
  With schema-conforming proposals (every confident proposal carries its corrected
  sentence) the correction loop of \<open>process_sentence\<close> raises nothing and an entry is
  produced.
\<close>

lemma correction_loop_returns:
  assumes "\<And>k. \<not> low_confidence (propose_reply L k) \<Longrightarrow>
                corrected_sentence (propose_reply L k) \<noteq> None"
  shows "\<exists>s' w'. correction_loop L sentence s w = Inr (s', w')"
proof (induction "max_correction_attempts - correction_attempt s" arbitrary: s w rule: less_induct)
  case less
  show ?case
  proof (cases "QA_passed s \<or> max_correction_attempts \<le> correction_attempt s")
    case True
    from correction_loop_stop [OF True] show ?thesis by blast
  next
    case False
    then have np: "\<not> QA_passed s" and lt: "correction_attempt s < max_correction_attempts"
      by auto
    show ?thesis
    proof (cases "low_confidence (propose_reply L (n_propose w))")
      case True
      have "\<exists>s' w'. correction_loop L sentence
               (s\<lparr>correction := Some (propose_reply L (n_propose w)),
                  correction_attempt := correction_attempt s + 1\<rparr>)
               (w\<lparr>n_propose := n_propose w + 1\<rparr>) = Inr (s', w')"
        by (rule less.hyps) (use lt in simp)
      then show ?thesis
        unfolding correction_loop_skip [OF np lt True, of sentence] .
    next
      case conf: False
      from assms [OF conf] have cs: "corrected_sentence (propose_reply L (n_propose w)) \<noteq> None" .
      show ?thesis
      proof (cases "accepted (qa_reply L (n_qa w))")
        case True
        from correction_loop_accept [OF np lt conf cs True, of sentence] show ?thesis by blast
      next
        case False
        have "\<exists>s' w'. correction_loop L sentence
                 (s\<lparr>correction := Some (propose_reply L (n_propose w)),
                    qa_result := Some (qa_reply L (n_qa w)),
                    correction_attempt := correction_attempt s + 1\<rparr>)
                 (w\<lparr>n_propose := n_propose w + 1, n_qa := n_qa w + 1\<rparr>) = Inr (s', w')"
          by (rule less.hyps) (use lt in simp)
        then show ?thesis
          unfolding correction_loop_retry [OF np lt conf cs False, of sentence] .
      qed
    qed
  qed
qed

lemma correct_sentence_returns:
  assumes "\<And>k. \<not> low_confidence (propose_reply L k) \<Longrightarrow>
                corrected_sentence (propose_reply L k) \<noteq> None"
  shows "\<exists>e w'. correct_sentence L sentence w = Inr (e, w')"
proof -
  from correction_loop_returns [OF assms] obtain s' w' where
    run: "correction_loop L sentence corr_init w = Inr (s', w')" by blast
  have "\<exists>e. prepare_result sentence (length sentence) s' = Inr e"
  proof (cases "QA_passed s'")
    case False
    then show ?thesis by (simp add: prepare_result_def)
  next
    case True
    have "\<not> QA_passed corr_init" by (simp add: corr_init_def)
    from correction_loop_passed [OF run this True]
    obtain c cs q where "correction s' = Some c" "corrected_sentence c = Some cs"
      "qa_result s' = Some q"
      by auto
    with True show ?thesis by (simp add: prepare_result_def)
  qed
  with run show ?thesis
    by (auto simp: correct_sentence_def calculate_sentence_length_def)
qed

text \<open>
  With an extractor whose every answer is blank, each step of the driver consumes
  nothing, and a document with some non-blank text is never finished.
\<close>

lemma find_str_empty: "find_str hay [] = Some 0"
  by (cases hay) simp_all

lemma segment_blank_consumes_nothing:
  assumes "segment L document w = Inr (sentence, end_index, sg, w')"
    and "\<And>k. \<exists>content. extract_reply L k = Some content \<and> strip content = []"
  shows "end_index = 0"
proof -
  note run = segment_run [OF assms(1)]
  have "\<forall>ei. seg_end_index sg = Some ei \<longrightarrow> ei = 0"
  proof (rule segmentation_loop_invariant [OF run(1)])
    show "\<forall>ei. seg_end_index seg_init = Some ei \<longrightarrow> ei = 0" by (simp add: seg_init_def)
  next
    fix s :: seg_state and w :: calls and sentence end_index
    assume e: "extract_sentence_from_queue document (initial_sentence_length_upper_bound s)
                (extract_reply L (n_extract w)) = Inr (sentence, end_index)"
    from assms(2) obtain content where
      c: "extract_reply L (n_extract w) = Some content" "strip content = []" by blast
    from e c have "end_index = 0"
      by (simp add: extract_sentence_from_queue_def find_str_empty)
    then show "\<forall>ei. seg_end_index
                 (s\<lparr>seg_sentence := Some sentence, seg_end_index := Some end_index,
                    seg_verification := verify_reply L (n_verify w),
                    seg_attempt := seg_attempt s + 1,
                    initial_sentence_length_upper_bound :=
                      initial_sentence_length_upper_bound s + 200\<rparr>) = Some ei \<longrightarrow> ei = 0"
      by simp
  qed
  with run(2) show ?thesis by simp
qed

lemma main_loop_never_finishes_on_blank_replies:
  assumes blank: "\<And>k. \<exists>content. extract_reply L k = Some content \<and> strip content = []"
    and run: "main_loop L document sentence_count chars_processed results w = Some y"
    and nonblank: "strip document \<noteq> []"
  shows "\<exists>e. y = Inl e"
proof -
  have "(\<forall>k. \<exists>content. extract_reply L k = Some content \<and> strip content = [])
        \<and> strip document \<noteq> [] \<longrightarrow> (\<exists>e. y = Inl e)"
  proof (rule main_loop.raw_induct
           [where P = "\<lambda>L document sentence_count chars_processed results w y.
                         (\<forall>k. \<exists>content. extract_reply L k = Some content \<and> strip content = [])
                         \<and> strip document \<noteq> [] \<longrightarrow> (\<exists>e. y = Inl e)",
            OF _ run])
    fix loop :: "llm \<Rightarrow> string \<Rightarrow> nat \<Rightarrow> nat \<Rightarrow> result_entry list \<Rightarrow> calls
                   \<Rightarrow> (error + (result_entry list \<times> nat \<times> nat \<times> string \<times> calls)) option"
      and L :: llm and document :: string and sentence_count chars_processed :: nat
      and results :: "result_entry list" and w :: calls
      and y :: "error + (result_entry list \<times> nat \<times> nat \<times> string \<times> calls)"
    assume ih: "\<And>L document sentence_count chars_processed results w y.
                  loop L document sentence_count chars_processed results w = Some y \<Longrightarrow>
                  (\<forall>k. \<exists>content. extract_reply L k = Some content \<and> strip content = [])
                  \<and> strip document \<noteq> [] \<longrightarrow> (\<exists>e. y = Inl e)"
      and body: "(if strip document \<noteq> [] then
                    (case process_sentence L document w of
                       Inl e \<Rightarrow> Some (Inl e)
                     | Inr (result, document', chars_consumed, w') \<Rightarrow>
                         loop L document' (sentence_count + 1) (chars_processed + chars_consumed)
                           (results @ [result]) w')
                  else Some (Inr (results, sentence_count, chars_processed, document, w)))
                 = Some y"
    show "(\<forall>k. \<exists>content. extract_reply L k = Some content \<and> strip content = [])
          \<and> strip document \<noteq> [] \<longrightarrow> (\<exists>e. y = Inl e)"
    proof
      assume a: "(\<forall>k. \<exists>content. extract_reply L k = Some content \<and> strip content = [])
                 \<and> strip document \<noteq> []"
      show "\<exists>e. y = Inl e"
      proof (cases "process_sentence L document w")
        case (Inl e)
        with a body have "y = Inl e" by simp
        then show ?thesis by blast
      next
        case (Inr p)
        obtain result document' chars_consumed w1 where
          p: "p = (result, document', chars_consumed, w1)" by (cases p)
        note ps = process_sentence_run [OF Inr [unfolded p]]
        from ps(1) a have "chars_consumed = 0"
          by (auto dest!: segment_blank_consumes_nothing)
        with ps(2) have same: "document' = document" by simp
        from a Inr p body
        have "loop L document' (sentence_count + 1) (chars_processed + chars_consumed)
                (results @ [result]) w1 = Some y"
          by simp
        from ih [OF this] a same show ?thesis by simp
      qed
    qed
  qed
  with blank nonblank show ?thesis by blast
qed

end
